theory Spec2Isabelle
  imports Main
begin

section \<open>JavaScript values used by the server and the client\<close>

text \<open>
  The host (\<^verbatim>\<open>server.ts\<close>, lines 122 to 341 of the README) and the driver
  (\<^verbatim>\<open>src/client.ts\<close>) are TypeScript. Their strings are modelled as \<^typ>\<open>string\<close>:
  a list of code units over the 8-bit alphabet U+0000 .. U+00FF; code units above U+00FF
  are outside the model. Numbers are IEEE 754 doubles, with the rounding that
  \<^verbatim>\<open>JSON.parse\<close> and \<^verbatim>\<open>parseInt\<close> perform.
\<close>

subsection \<open>Strings: trim, anchored replace, join\<close>

text \<open>\<^verbatim>\<open>String.prototype.trim\<close> removes WhiteSpace and LineTerminator code units from
  both ends: TAB, LF, VT, FF, CR, SP and NBSP in this alphabet.\<close>

definition isWhiteSpace :: "char \<Rightarrow> bool" where
  "isWhiteSpace c \<longleftrightarrow>
     c \<in> set [CHR 0x09, CHR 0x0A, CHR 0x0B, CHR 0x0C, CHR 0x0D, CHR 0x20, CHR 0xA0]"

definition trimStart :: "string \<Rightarrow> string" where
  "trimStart s = dropWhile isWhiteSpace s"

definition trimEnd :: "string \<Rightarrow> string" where
  "trimEnd s = rev (dropWhile isWhiteSpace (rev s))"

definition trim :: "string \<Rightarrow> string" where
  "trim s = trimEnd (trimStart s)"

definition startsWith :: "string \<Rightarrow> string \<Rightarrow> bool" where
  "startsWith s p \<longleftrightarrow> take (length p) s = p"

definition endsWith :: "string \<Rightarrow> string \<Rightarrow> bool" where
  "endsWith s p \<longleftrightarrow> length p \<le> length s \<and> drop (length s - length p) s = p"

text \<open>\<^verbatim>\<open>s.replace(/^p/, "")\<close> for a literal \<open>p\<close>: the only possible match is at index 0.\<close>

definition replace_at_start :: "string \<Rightarrow> string \<Rightarrow> string" where
  "replace_at_start p s = (if startsWith s p then drop (length p) s else s)"

text \<open>\<^verbatim>\<open>s.replace(/p$/, "")\<close> for a literal \<open>p\<close>, without the multiline flag: the only
  possible match ends at the end of the input.\<close>

definition replace_at_end :: "string \<Rightarrow> string \<Rightarrow> string" where
  "replace_at_end p s = (if endsWith s p then take (length s - length p) s else s)"

text \<open>\<^verbatim>\<open>Array.prototype.join\<close>.\<close>

fun join :: "string \<Rightarrow> string list \<Rightarrow> string" where
  "join sep [] = []"
| "join sep [x] = x"
| "join sep (x # y # ys) = x @ sep @ join sep (y # ys)"

subsection \<open>Numbers and their decimal text\<close>

definition isDigit :: "char \<Rightarrow> bool" where
  "isDigit c \<longleftrightarrow> 48 \<le> (of_char c :: nat) \<and> (of_char c :: nat) \<le> 57"

definition digitValue :: "char \<Rightarrow> int" where
  "digitValue c = of_char c - 48"

definition digitsValue :: "string \<Rightarrow> int" where
  "digitsValue ds = foldl (\<lambda>a c. 10 * a + digitValue c) 0 ds"

fun natToString :: "nat \<Rightarrow> string" where
  "natToString n =
     (if n < 10 then [char_of (48 + n)] else natToString (n div 10) @ [char_of (48 + n mod 10)])"

text \<open>A Number is an IEEE 754 double. A finite double is \<open>\<plusminus> M \<times> 2^E\<close> with \<open>M < 2^53\<close> and
  \<open>- 1074 \<le> E \<le> 971\<close>. The model names a finite double by the decimal that
  \<^verbatim>\<open>Number::toString\<close> prints for it, the shortest decimal that rounds to it:
  \<open>Integer i\<close> when that decimal is an integer, and \<open>Fraction m e\<close> with value
  \<open>m \<times> 10^e\<close>, where \<open>e < 0\<close> and \<open>m\<close> has no trailing decimal zero, otherwise.
  \<open>Infinity neg\<close> is \<^verbatim>\<open>Infinity\<close>, or \<^verbatim>\<open>-Infinity\<close> when \<open>neg\<close> holds. Every Number other
  than \<^verbatim>\<open>NaN\<close> has one name, so \<^verbatim>\<open>===\<close> on these is equality (\<open>-0\<close> and \<open>0\<close> are equal
  and print alike).\<close>

datatype number = Integer int | Fraction int int | Infinity bool

text \<open>The number of binary digits, and of decimal digits, of a positive integer.\<close>

function bitLength :: "int \<Rightarrow> int" where
  "bitLength n = (if n \<le> 0 then 0 else 1 + bitLength (n div 2))"
  by pat_completeness auto
termination by (relation "measure nat") auto

function decimalLength :: "int \<Rightarrow> int" where
  "decimalLength n = (if n < 10 then 1 else 1 + decimalLength (n div 10))"
  by pat_completeness auto
termination by (relation "measure nat") auto

text \<open>Rationals are pairs of a numerator and a positive denominator: \<open>scaled p q E\<close> is
  \<open>p / q / 2^E\<close>, and \<open>power10 s t\<close> is \<open>s \<times> 10^t\<close>.\<close>

definition scaled :: "int \<Rightarrow> int \<Rightarrow> int \<Rightarrow> int \<times> int" where
  "scaled p q E = (if E < 0 then (p * 2 ^ nat (- E), q) else (p, q * 2 ^ nat E))"

definition power10 :: "int \<Rightarrow> int \<Rightarrow> int \<times> int" where
  "power10 s t = (if t < 0 then (s, 10 ^ nat (- t)) else (s * 10 ^ nat t, 1))"

text \<open>The integer nearest to \<open>a / b\<close>, the even one of two at equal distance.\<close>

definition roundHalfEven :: "int \<Rightarrow> int \<Rightarrow> int" where
  "roundHalfEven a b =
     (let m = a div b; r = a mod b
      in if b < 2 * r \<or> (2 * r = b \<and> odd m) then m + 1 else m)"

text \<open>The double nearest to the rational \<open>p / q\<close>, for \<open>0 < p\<close> and \<open>0 < q\<close>
  (roundTiesToEven): its significand \<open>M\<close> and exponent \<open>E\<close>. The exponent is the one that
  brings \<open>p / q / 2^E\<close> into \<open>[2^52, 2^53)\<close>, and not less than \<open>- 1074\<close> (subnormal
  numbers, and 0 by underflow). \<open>None\<close> is the overflow to infinity.\<close>

definition toDouble :: "int \<Rightarrow> int \<Rightarrow> (int \<times> int) option" where
  "toDouble p q =
     (let E1 = max (bitLength p - bitLength q - 53) (- 1074);
          (a1, b1) = scaled p q E1;
          E = (if 2 ^ 53 \<le> a1 div b1 then E1 + 1 else E1);
          (a, b) = scaled p q E;
          M = roundHalfEven a b;
          (M', E') = (if M = 2 ^ 53 then (2 ^ 52, E + 1) else (M, E))
      in if 971 < E' then None else Some (M', E'))"

text \<open>The \<open>n\<close> with \<open>10^(n-1) \<le> p / q < 10^n\<close>.\<close>

definition decimalExponent :: "int \<Rightarrow> int \<Rightarrow> int" where
  "decimalExponent p q =
     (if q \<le> p then decimalLength (p div q)
      else let j = decimalLength (q div p)
           in if p * 10 ^ nat (j - 1) < q then 1 - j else 2 - j)"

definition roundsTo :: "int \<times> int \<Rightarrow> int \<Rightarrow> int \<Rightarrow> bool" where
  "roundsTo d s t = (case power10 s t of (p, q) \<Rightarrow> toDouble p q = Some d)"

text \<open>The digits of \<^verbatim>\<open>Number::toString\<close> for the double \<open>d\<close> of value \<open>p / q\<close>: the least
  number \<open>k\<close> of digits with a \<open>k\<close>-digit \<open>s\<close> such that \<open>s \<times> 10^(n-k)\<close> rounds to \<open>d\<close>; of two
  such \<open>s\<close> the one nearer to \<open>d\<close>, and the even one at equal distance. The first argument
  counts down from 17 as \<open>k\<close> counts up from 1; seventeen digits determine a double.\<close>

fun shortest :: "nat \<Rightarrow> int \<Rightarrow> int \<times> int \<Rightarrow> int \<times> int \<Rightarrow> int \<times> int" where
  "shortest 0 n d (p, q) =
     (case power10 1 (17 - n) of (a, b) \<Rightarrow> (roundHalfEven (p * a) (q * b), n - 17))"
| "shortest (Suc i) n d (p, q) =
     (let k = 17 - int i; t = n - k;
          (a, b) = power10 1 (- t);
          lo = (p * a) div (q * b); r = (p * a) mod (q * b);
          okLo = roundsTo d lo t; okHi = roundsTo d (lo + 1) t
      in if okLo \<and> okHi then
           (if 2 * r < q * b \<or> (2 * r = q * b \<and> even lo) then (lo, t) else (lo + 1, t))
         else if okLo then (lo, t)
         else if okHi then (lo + 1, t)
         else shortest i n d (p, q))"

text \<open>The name of \<open>\<plusminus> s \<times> 10^t\<close>, without the trailing zeros of \<open>s\<close>.\<close>

function stripZeros :: "int \<Rightarrow> int \<Rightarrow> int \<times> int" where
  "stripZeros s t = (if s \<noteq> 0 \<and> s mod 10 = 0 then stripZeros (s div 10) (t + 1) else (s, t))"
  by pat_completeness auto
termination by (relation "measure (\<lambda>(s, t). nat \<bar>s\<bar>)") auto

definition fromDecimal :: "bool \<Rightarrow> int \<Rightarrow> int \<Rightarrow> number" where
  "fromDecimal neg s t =
     (let (s', t') = stripZeros s t;
          m = (if neg then - s' else s')
      in if 0 \<le> t' then Integer (m * 10 ^ nat t') else Fraction m t')"

text \<open>The Number value of the rational \<open>\<plusminus> p / q\<close>, for \<open>0 \<le> p\<close> and \<open>0 < q\<close>: the nearest
  double, under its name.\<close>

definition numberValue :: "bool \<Rightarrow> int \<Rightarrow> int \<Rightarrow> number" where
  "numberValue neg p q =
     (if p = 0 then Integer 0
      else case toDouble p q of
             None \<Rightarrow> Infinity neg
           | Some (M, E) \<Rightarrow>
               if M = 0 then Integer 0
               else let x = scaled M 1 (- E);
                        (s, t) = shortest 17 (decimalExponent (fst x) (snd x)) (M, E) x
                    in fromDecimal neg s t)"

text \<open>The Number value of a decimal literal with the digits \<open>ds\<close> and the exponent \<open>e\<close>.\<close>

definition decimal :: "bool \<Rightarrow> string \<Rightarrow> int \<Rightarrow> number" where
  "decimal neg ds e = (case power10 (digitsValue ds) e of (p, q) \<Rightarrow> numberValue neg p q)"

text \<open>\<^verbatim>\<open>Number::toString\<close> (radix 10): \<open>s\<close> are the significant digits, \<open>n\<close> is the
  position of the decimal point.\<close>

definition exponentForm :: "string \<Rightarrow> int \<Rightarrow> string" where
  "exponentForm s n =
     (if length s = 1 then s else [hd s] @ ''.'' @ tl s)
     @ ''e'' @ (if 0 \<le> n - 1 then ''+'' else ''-'') @ natToString (nat \<bar>n - 1\<bar>)"

definition numberToString :: "number \<Rightarrow> string" where
  "numberToString x =
     (case x of
        Infinity neg \<Rightarrow> (if neg then ''-Infinity'' else ''Infinity'')
      | Integer i \<Rightarrow>
          (let s0 = natToString (nat \<bar>i\<bar>);
               zs = takeWhile (\<lambda>c. c = CHR ''0'') (rev s0)
           in (if i < 0 then ''-'' else [])
              @ (if length s0 \<le> 21 then s0
                 else exponentForm (take (length s0 - length zs) s0) (int (length s0))))
      | Fraction m e \<Rightarrow>
          (let s = natToString (nat \<bar>m\<bar>);
               n = e + int (length s)
           in (if m < 0 then ''-'' else [])
              @ (if 0 < n \<and> n \<le> 21 then take (nat n) s @ ''.'' @ drop (nat n) s
                 else if - 6 < n \<and> n \<le> 0 then ''0.'' @ replicate (nat (- n)) CHR ''0'' @ s
                 else exponentForm s n)))"

subsection \<open>JSON values and objects\<close>

datatype json =
    JNull
  | JBool bool
  | JNumber number
  | JString string
  | JArray "json list"
  | JObject "(string \<times> json) list"

text \<open>An object is the list of its own enumerable properties in property order: the
  array-index keys in ascending order first, then the other keys in order of creation.\<close>

type_synonym obj = "(string \<times> json) list"

definition isArrayIndex :: "string \<Rightarrow> bool" where
  "isArrayIndex k \<longleftrightarrow>
     k \<noteq> [] \<and> list_all isDigit k \<and> (hd k = CHR ''0'' \<longrightarrow> length k = 1)
     \<and> digitsValue k < 4294967295"

fun insertIndex :: "string \<Rightarrow> json \<Rightarrow> obj \<Rightarrow> obj" where
  "insertIndex k v [] = [(k, v)]"
| "insertIndex k v ((k', v') # ps) =
     (if isArrayIndex k' \<and> digitsValue k' < digitsValue k
      then (k', v') # insertIndex k v ps
      else (k, v) # (k', v') # ps)"

text \<open>\<^verbatim>\<open>CreateDataProperty\<close>: an existing key keeps its place and takes the new value.\<close>

definition defineProperty :: "string \<Rightarrow> json \<Rightarrow> obj \<Rightarrow> obj" where
  "defineProperty k v ps =
     (if k \<in> fst ` set ps then map (\<lambda>(k', v'). if k' = k then (k, v) else (k', v')) ps
      else if isArrayIndex k then insertIndex k v ps
      else ps @ [(k, v)])"

text \<open>The own enumerable properties that object spread copies from a value (\<^verbatim>\<open>ToObject\<close>
  of a string or an array has one property per index; numbers, booleans and
  \<^verbatim>\<open>null\<close> have none).\<close>

definition ownProperties :: "json \<Rightarrow> obj" where
  "ownProperties v =
     (case v of
        JObject ps \<Rightarrow> ps
      | JArray vs \<Rightarrow> zip (map natToString [0..<length vs]) vs
      | JString s \<Rightarrow> zip (map natToString [0..<length s]) (map (\<lambda>c. JString [c]) s)
      | _ \<Rightarrow> [])"

text \<open>\<^verbatim>\<open>{ ...target, ...source }\<close>.\<close>

definition spread :: "obj \<Rightarrow> json \<Rightarrow> obj" where
  "spread target source = foldl (\<lambda>ps (k, v). defineProperty k v ps) target (ownProperties source)"

subsection \<open>\<^verbatim>\<open>JSON.parse\<close>\<close>

text \<open>The JSON grammar of ECMA-404, as \<^verbatim>\<open>JSON.parse\<close> (without a reviver) reads it: a lexer
  to tokens, then a pushdown automaton over the tokens. \<open>None\<close> is the SyntaxError.\<close>

datatype token =
    LBrace | RBrace | LBracket | RBracket | Colon | Comma
  | TString string | TNumber number | TTrue | TFalse | TNull

definition isJsonWhiteSpace :: "char \<Rightarrow> bool" where
  "isJsonWhiteSpace c \<longleftrightarrow> c \<in> set [CHR 0x20, CHR 0x09, CHR 0x0A, CHR 0x0D]"

definition hexValue :: "char \<Rightarrow> nat option" where
  "hexValue c =
     (let n = (of_char c :: nat)
      in if 48 \<le> n \<and> n \<le> 57 then Some (n - 48)
         else if 65 \<le> n \<and> n \<le> 70 then Some (n - 55)
         else if 97 \<le> n \<and> n \<le> 102 then Some (n - 87)
         else None)"

definition escapeChar :: "char \<Rightarrow> char option" where
  "escapeChar c =
     (if c = CHR 0x22 then Some (CHR 0x22)
      else if c = CHR 0x5C then Some (CHR 0x5C)
      else if c = CHR ''/'' then Some (CHR ''/'')
      else if c = CHR ''b'' then Some (CHR 0x08)
      else if c = CHR ''f'' then Some (CHR 0x0C)
      else if c = CHR ''n'' then Some (CHR 0x0A)
      else if c = CHR ''r'' then Some (CHR 0x0D)
      else if c = CHR ''t'' then Some (CHR 0x09)
      else None)"

text \<open>The characters of a string literal after its opening quote, up to and including
  the closing quote: the string denoted and the rest of the input. A \<^verbatim>\<open>\uXXXX\<close> escape
  is one code unit, reduced to the 8-bit alphabet of the model.\<close>

fun lexStringChars :: "string \<Rightarrow> (string \<times> string) option" where
  "lexStringChars [] = None"
| "lexStringChars (c # cs) =
     (if c = CHR 0x22 then Some ([], cs)
      else if c = CHR 0x5C then
        (case cs of
           [] \<Rightarrow> None
         | e # cs1 \<Rightarrow>
             if e = CHR ''u'' then
               (case cs1 of
                  h1 # h2 # h3 # h4 # cs2 \<Rightarrow>
                    (case (hexValue h1, hexValue h2, hexValue h3, hexValue h4) of
                       (Some a, Some b, Some c', Some d) \<Rightarrow>
                         map_option (\<lambda>(s, r). (char_of (4096 * a + 256 * b + 16 * c' + d) # s, r))
                           (lexStringChars cs2)
                     | _ \<Rightarrow> None)
                | _ \<Rightarrow> None)
             else
               (case escapeChar e of
                  None \<Rightarrow> None
                | Some x \<Rightarrow> map_option (\<lambda>(s, r). (x # s, r)) (lexStringChars cs1)))
      else if (of_char c :: nat) < 32 then None
      else map_option (\<lambda>(s, r). (c # s, r)) (lexStringChars cs))"

text \<open>A number literal: \<^verbatim>\<open>-? (0 | [1-9][0-9]*) (. [0-9]+)? ([eE] [+-]? [0-9]+)?\<close>, the
  longest match.\<close>

definition lexFraction :: "string \<Rightarrow> string \<times> string" where
  "lexFraction s =
     (case s of
        d # f # r \<Rightarrow>
          if d = CHR ''.'' \<and> isDigit f
          then (takeWhile isDigit (f # r), dropWhile isDigit (f # r))
          else ([], s)
      | _ \<Rightarrow> ([], s))"

definition lexExponent :: "string \<Rightarrow> int \<times> string" where
  "lexExponent s =
     (case s of
        [] \<Rightarrow> (0, s)
      | x # r \<Rightarrow>
          if x = CHR ''e'' \<or> x = CHR ''E'' then
            (case r of
               [] \<Rightarrow> (0, s)
             | g # r1 \<Rightarrow>
                 if isDigit g then
                   (digitsValue (takeWhile isDigit r), dropWhile isDigit r)
                 else if (g = CHR ''+'' \<or> g = CHR ''-'') \<and> r1 \<noteq> [] \<and> isDigit (hd r1) then
                   ((if g = CHR ''-'' then - 1 else 1) * digitsValue (takeWhile isDigit r1),
                    dropWhile isDigit r1)
                 else (0, s))
          else (0, s))"

definition lexNumber :: "string \<Rightarrow> (number \<times> string) option" where
  "lexNumber s =
     (let neg = (s \<noteq> [] \<and> hd s = CHR ''-'');
          s1 = (if neg then tl s else s)
      in case s1 of
           [] \<Rightarrow> None
         | c # cs \<Rightarrow>
             if \<not> isDigit c then None
             else
               let ip = (if c = CHR ''0'' then [c] else c # takeWhile isDigit cs);
                   r0 = (if c = CHR ''0'' then cs else dropWhile isDigit cs);
                   (fp, r1) = lexFraction r0;
                   (ex, r2) = lexExponent r1
               in Some (decimal neg (ip @ fp) (ex - int (length fp)), r2))"

lemma lexStringChars_shorter:
  "lexStringChars cs = Some (s, r) \<Longrightarrow> length r < length cs"
proof (induction cs arbitrary: s r rule: lexStringChars.induct)
  case 1
  then show ?case by simp
next
  case (2 c cs)
  then show ?case
    by (auto split: if_splits list.splits option.splits prod.splits) fastforce+
qed

lemma lexFraction_shorter: "lexFraction s = (fp, r) \<Longrightarrow> length r \<le> length s"
  by (auto simp: lexFraction_def split: list.splits if_splits
      intro: le_trans [OF length_dropWhile_le])

lemma lexExponent_shorter: "lexExponent s = (ex, r) \<Longrightarrow> length r \<le> length s"
  by (auto simp: lexExponent_def split: list.splits if_splits
      intro: le_trans [OF length_dropWhile_le])

lemma lexNumber_shorter:
  assumes "lexNumber s = Some (n, r)"
  shows "length r < length s"
proof -
  obtain c cs where s1: "(if s \<noteq> [] \<and> hd s = CHR ''-'' then tl s else s) = c # cs"
    and dig: "isDigit c"
    using assms by (auto simp: lexNumber_def Let_def split: list.splits if_splits)
  define r0 where "r0 = (if c = CHR ''0'' then cs else dropWhile isDigit cs)"
  obtain fp r1 where f: "lexFraction r0 = (fp, r1)" by (cases "lexFraction r0")
  obtain ex r2 where e: "lexExponent r1 = (ex, r2)" by (cases "lexExponent r1")
  have "r = r2"
    using assms s1 dig f e unfolding lexNumber_def Let_def r0_def
    by (auto split: list.splits if_splits prod.splits)
  moreover have "length r2 \<le> length r0"
    using lexFraction_shorter [OF f] lexExponent_shorter [OF e] by simp
  moreover have "length r0 \<le> length cs"
    by (simp add: r0_def length_dropWhile_le)
  moreover have "length cs < length s"
    using s1 by (cases s) (auto split: if_splits)
  ultimately show ?thesis by simp
qed

function lex :: "string \<Rightarrow> token list option" where
  "lex [] = Some []"
| "lex (c # cs) =
     (if isJsonWhiteSpace c then lex cs
      else if c = CHR ''{'' then map_option ((#) LBrace) (lex cs)
      else if c = CHR ''}'' then map_option ((#) RBrace) (lex cs)
      else if c = CHR ''['' then map_option ((#) LBracket) (lex cs)
      else if c = CHR '']'' then map_option ((#) RBracket) (lex cs)
      else if c = CHR '':'' then map_option ((#) Colon) (lex cs)
      else if c = CHR '','' then map_option ((#) Comma) (lex cs)
      else if c = CHR 0x22 then
        (case lexStringChars cs of
           None \<Rightarrow> None
         | Some (s, r) \<Rightarrow> map_option ((#) (TString s)) (lex r))
      else if c = CHR ''-'' \<or> isDigit c then
        (case lexNumber (c # cs) of
           None \<Rightarrow> None
         | Some (n, r) \<Rightarrow> map_option ((#) (TNumber n)) (lex r))
      else if startsWith (c # cs) ''true'' then map_option ((#) TTrue) (lex (drop 3 cs))
      else if startsWith (c # cs) ''false'' then map_option ((#) TFalse) (lex (drop 4 cs))
      else if startsWith (c # cs) ''null'' then map_option ((#) TNull) (lex (drop 3 cs))
      else None)"
  by pat_completeness auto
termination
proof (relation "measure length", goal_cases)
  case 1
  then show ?case by simp
next
  case (9 c cs x2 s r)
  then show ?case using lexStringChars_shorter [of cs s r] by simp
next
  case (10 c cs x2 n r)
  then show ?case using lexNumber_shorter [of "c # cs" n r] by simp
qed simp_all

text \<open>The automaton: the containers under construction, innermost first, and what the
  grammar allows next.\<close>

datatype frame =
    InArray "json list"
  | InObject obj
  | InMember obj string

datatype mode = Value | ValueOrClose | KeyOrClose | Key | AfterKey | AfterValue | Finished json

fun complete :: "json \<Rightarrow> frame list \<Rightarrow> (mode \<times> frame list) option" where
  "complete v [] = Some (Finished v, [])"
| "complete v (InArray vs # st) = Some (AfterValue, InArray (vs @ [v]) # st)"
| "complete v (InMember ps k # st) = Some (AfterValue, InObject (defineProperty k v ps) # st)"
| "complete v (InObject ps # st) = None"

fun beginValue :: "token \<Rightarrow> frame list \<Rightarrow> (mode \<times> frame list) option" where
  "beginValue LBracket st = Some (ValueOrClose, InArray [] # st)"
| "beginValue LBrace st = Some (KeyOrClose, InObject [] # st)"
| "beginValue (TString s) st = complete (JString s) st"
| "beginValue (TNumber n) st = complete (JNumber n) st"
| "beginValue TTrue st = complete (JBool True) st"
| "beginValue TFalse st = complete (JBool False) st"
| "beginValue TNull st = complete JNull st"
| "beginValue _ st = None"

fun step :: "token \<Rightarrow> mode \<times> frame list \<Rightarrow> (mode \<times> frame list) option" where
  "step t (Value, st) = beginValue t st"
| "step RBracket (ValueOrClose, InArray vs # st) = complete (JArray vs) st"
| "step t (ValueOrClose, st) = beginValue t st"
| "step RBrace (KeyOrClose, InObject ps # st) = complete (JObject ps) st"
| "step (TString k) (KeyOrClose, InObject ps # st) = Some (AfterKey, InMember ps k # st)"
| "step (TString k) (Key, InObject ps # st) = Some (AfterKey, InMember ps k # st)"
| "step Colon (AfterKey, st) = Some (Value, st)"
| "step Comma (AfterValue, InArray vs # st) = Some (Value, InArray vs # st)"
| "step Comma (AfterValue, InObject ps # st) = Some (Key, InObject ps # st)"
| "step RBracket (AfterValue, InArray vs # st) = complete (JArray vs) st"
| "step RBrace (AfterValue, InObject ps # st) = complete (JObject ps) st"
| "step _ _ = None"

fun run :: "token list \<Rightarrow> mode \<times> frame list \<Rightarrow> json option" where
  "run [] (Finished v, st) = Some v"
| "run [] _ = None"
| "run (t # ts) c = (case step t c of None \<Rightarrow> None | Some c' \<Rightarrow> run ts c')"

definition JSON_parse :: "string \<Rightarrow> json option" where
  "JSON_parse s = (case lex s of None \<Rightarrow> None | Some ts \<Rightarrow> run ts (Value, []))"

subsection \<open>\<^verbatim>\<open>JSON.stringify\<close>\<close>

definition hexDigit :: "nat \<Rightarrow> char" where
  "hexDigit n = (if n < 10 then char_of (48 + n) else char_of (87 + n))"

definition quoteChar :: "char \<Rightarrow> string" where
  "quoteChar c =
     (if c = CHR 0x08 then [CHR 0x5C, CHR ''b'']
      else if c = CHR 0x09 then [CHR 0x5C, CHR ''t'']
      else if c = CHR 0x0A then [CHR 0x5C, CHR ''n'']
      else if c = CHR 0x0C then [CHR 0x5C, CHR ''f'']
      else if c = CHR 0x0D then [CHR 0x5C, CHR ''r'']
      else if c = CHR 0x22 then [CHR 0x5C, CHR 0x22]
      else if c = CHR 0x5C then [CHR 0x5C, CHR 0x5C]
      else if (of_char c :: nat) < 32 then
        [CHR 0x5C, CHR ''u'', CHR ''0'', CHR ''0'',
         hexDigit (of_char c div 16), hexDigit (of_char c mod 16)]
      else [c])"

definition quoteJSONString :: "string \<Rightarrow> string" where
  "quoteJSONString s = [CHR 0x22] @ concat (map quoteChar s) @ [CHR 0x22]"

text \<open>\<^verbatim>\<open>SerializeJSONProperty\<close> with the gap and the current indentation; the values are
  those \<^verbatim>\<open>JSON.parse\<close> and object literals build, so none is skipped.\<close>

definition wrap :: "string \<Rightarrow> string \<Rightarrow> string \<Rightarrow> string \<Rightarrow> string list \<Rightarrow> string" where
  "wrap opening closing gap indent partial =
     (if partial = [] then opening @ closing
      else if gap = [] then opening @ join '','' partial @ closing
      else opening @ [CHR 0x0A] @ indent @ gap
           @ join ('','' @ [CHR 0x0A] @ indent @ gap) partial
           @ [CHR 0x0A] @ indent @ closing)"

fun serialize :: "string \<Rightarrow> string \<Rightarrow> json \<Rightarrow> string" where
  "serialize gap indent JNull = ''null''"
| "serialize gap indent (JBool b) = (if b then ''true'' else ''false'')"
| "serialize gap indent (JNumber n) =
     (case n of Infinity neg \<Rightarrow> ''null'' | _ \<Rightarrow> numberToString n)"
| "serialize gap indent (JString s) = quoteJSONString s"
| "serialize gap indent (JArray vs) =
     wrap ''['' '']'' gap indent (map (serialize gap (indent @ gap)) vs)"
| "serialize gap indent (JObject ps) =
     wrap ''{'' ''}'' gap indent
       (map (\<lambda>p. quoteJSONString (fst p) @ '':'' @ (if gap = [] then [] else '' '')
                  @ serialize gap (indent @ gap) (snd p)) ps)"

text \<open>\<^verbatim>\<open>JSON.stringify(v)\<close> and \<^verbatim>\<open>JSON.stringify(v, null, 2)\<close>.\<close>

definition JSON_stringify :: "json \<Rightarrow> string" where
  "JSON_stringify v = serialize [] [] v"

definition JSON_stringify_2 :: "json \<Rightarrow> string" where
  "JSON_stringify_2 v = serialize ''  '' [] v"

subsection \<open>\<^verbatim>\<open>parseInt\<close>\<close>

text \<open>\<^verbatim>\<open>parseInt(string)\<close> without a radix: leading white space is skipped, a sign is read,
  a \<^verbatim>\<open>0x\<close> or \<^verbatim>\<open>0X\<close> prefix selects radix 16, and the longest run of digits of the radix
  denotes an integer; the result is the Number value of that integer, the nearest double.
  \<open>None\<close> is \<^verbatim>\<open>NaN\<close>.\<close>

definition hexDigitsValue :: "string \<Rightarrow> int" where
  "hexDigitsValue ds = foldl (\<lambda>a c. 16 * a + int (case hexValue c of Some d \<Rightarrow> d | None \<Rightarrow> 0)) 0 ds"

definition parseInt :: "string \<Rightarrow> number option" where
  "parseInt str =
     (let s = trimStart str;
          neg = (s \<noteq> [] \<and> hd s = CHR ''-'');
          s1 = (if s \<noteq> [] \<and> (hd s = CHR ''+'' \<or> hd s = CHR ''-'') then tl s else s);
          hex = (startsWith s1 ''0x'' \<or> startsWith s1 ''0X'');
          z = (if hex then takeWhile (\<lambda>c. hexValue c \<noteq> None) (drop 2 s1)
               else takeWhile isDigit s1)
      in if z = [] then None
         else Some (numberValue neg (if hex then hexDigitsValue z else digitsValue z) 1))"

section \<open>The host: \<^verbatim>\<open>server.ts\<close>\<close>

text \<open>
  The store is \<^verbatim>\<open>./data/users.json\<close>, read with a dynamic \<^verbatim>\<open>import()\<close>. The module system
  evaluates a module once: every later \<^verbatim>\<open>import()\<close> of it yields the same array object, so
  \<^verbatim>\<open>allUsers.push\<close> in \<^verbatim>\<open>createUser\<close> is seen by every later read. \<open>users_module\<close> is that
  array, or \<open>None\<close> when the module cannot be loaded (the import rejects). \<open>users_file\<close> is
  the text of \<^verbatim>\<open>./src/data/users.json\<close>, which \<^verbatim>\<open>fs.writeFile\<close> replaces.
\<close>

record server_state =
  users_module :: "obj list option"
  users_file :: string

datatype error = ImportFailed | WriteFailed

record content_item =
  item_type :: string
  item_text :: string

record resource_content =
  uri :: string
  text_of :: string
  mimeType :: string

text \<open>The content of a sampling reply (\<^verbatim>\<open>CreateMessageResult\<close>) and of a prompt message:
  text, or another type (image, audio, resource) of which only the tag matters here.\<close>

datatype message_content = TextContent string | OtherContent string

definition text_item :: "string \<Rightarrow> content_item list" where
  "text_item t = [\<lparr>item_type = ''text'', item_text = t\<rparr>]"

subsection \<open>\<^verbatim>\<open>createUser\<close> (README lines 316 to 333)\<close>

text \<open>\<^verbatim>\<open>fs.writeFile\<close> opens the file for writing, which truncates it, and then writes
  the data. A \<open>write_result\<close> is what happens to that write in one call: it completes; or
  the file cannot be opened, and stays as it was; or the write fails after the first \<open>n\<close>
  code units of the data have reached the file.\<close>

datatype write_result = Written | NotOpened | Interrupted nat

definition writeFile :: "string \<Rightarrow> write_result \<Rightarrow> string \<Rightarrow> string" where
  "writeFile data w file =
     (case w of Written \<Rightarrow> data | NotOpened \<Rightarrow> file | Interrupted n \<Rightarrow> take n data)"

text \<open>The state is returned with the result also when the function throws: the push has
  happened before \<^verbatim>\<open>fs.writeFile\<close> is awaited. An array has fewer than \<^verbatim>\<open>2^32\<close> elements,
  so \<^verbatim>\<open>allUsers.length + 1\<close> is exact.\<close>

definition createUser ::
  "json \<Rightarrow> write_result \<Rightarrow> server_state \<Rightarrow> (error + nat) \<times> server_state" where
  "createUser userData w st =
     (case users_module st of
        None \<Rightarrow> (Inl ImportFailed, st)
      | Some allUsers \<Rightarrow>
          let newUserId = length allUsers + 1;
              allUsers' = allUsers @ [spread [(''id'', JNumber (Integer (int newUserId)))] userData];
              st' = st\<lparr>users_module := Some allUsers',
                       users_file := writeFile (JSON_stringify_2 (JArray (map JObject allUsers')))
                                       w (users_file st)\<rparr>
          in if w = Written then (Inr newUserId, st') else (Inl WriteFailed, st'))"

subsection \<open>The tools (README lines 203 to 291)\<close>

definition created_text :: "nat \<Rightarrow> string" where
  "created_text newUserId =
     ''User '' @ numberToString (Integer (int newUserId)) @ '' created successfully''"

text \<open>\<^verbatim>\<open>create-user\<close>: the arguments have passed the declared schema, four strings.\<close>

record user_params =
  name :: string
  email :: string
  address :: string
  phone :: string

definition params_object :: "user_params \<Rightarrow> json" where
  "params_object p =
     JObject [(''name'', JString (name p)), (''email'', JString (email p)),
              (''address'', JString (address p)), (''phone'', JString (phone p))]"

definition create_user ::
  "user_params \<Rightarrow> write_result \<Rightarrow> server_state \<Rightarrow> content_item list \<times> server_state" where
  "create_user userParams w st =
     (case createUser (params_object userParams) w st of
        (Inr newUserId, st') \<Rightarrow> (text_item (created_text newUserId), st')
      | (Inl e, st') \<Rightarrow> (text_item ''Failed to save user'', st'))"

text \<open>\<^verbatim>\<open>create-random-user\<close>, from the sampling reply it has received.\<close>

definition normalise :: "string \<Rightarrow> string" where
  "normalise t = trim (replace_at_end ''```'' (replace_at_start ''```json'' (trim t)))"

definition create_random_user ::
  "message_content \<Rightarrow> write_result \<Rightarrow> server_state \<Rightarrow> content_item list \<times> server_state" where
  "create_random_user aiResponse w st =
     (case aiResponse of
        OtherContent ty \<Rightarrow> (text_item ''Failed to generate user data'', st)
      | TextContent t \<Rightarrow>
          (case JSON_parse (normalise t) of
             None \<Rightarrow> (text_item ''Failed to generate user data'', st)
           | Some generatedUserData \<Rightarrow>
               (case createUser generatedUserData w st of
                  (Inr newUserId, st') \<Rightarrow> (text_item (created_text newUserId), st')
                | (Inl e, st') \<Rightarrow> (text_item ''Failed to generate user data'', st'))))"

subsection \<open>The resources (README lines 138 to 201)\<close>

text \<open>A handler that throws (\<open>Inl\<close>) is answered with a protocol error; a handler that
  returns (\<open>Inr\<close>) is answered with its contents.\<close>

definition json_content :: "string \<Rightarrow> json \<Rightarrow> resource_content list" where
  "json_content href v =
     [\<lparr>uri = href, text_of = JSON_stringify v, mimeType = ''application/json''\<rparr>]"

definition users_all :: "string \<Rightarrow> server_state \<Rightarrow> error + resource_content list" where
  "users_all href st =
     (case users_module st of
        None \<Rightarrow> Inl ImportFailed
      | Some allUsers \<Rightarrow> Inr (json_content href (JArray (map JObject allUsers))))"

text \<open>\<^verbatim>\<open>user.id === parseInt(userId)\<close>: false when \<^verbatim>\<open>id\<close> is missing or not a number, and
  when the right side is \<^verbatim>\<open>NaN\<close>.\<close>

definition id_matches :: "number option \<Rightarrow> obj \<Rightarrow> bool" where
  "id_matches n user =
     (case (map_of user ''id'', n) of
        (Some (JNumber x), Some y) \<Rightarrow> x = y
      | _ \<Rightarrow> False)"

definition not_found :: json where
  "not_found = JObject [(''error'', JString ''User not found'')]"

definition user_details :: "string \<Rightarrow> string \<Rightarrow> server_state \<Rightarrow> error + resource_content list" where
  "user_details href userId st =
     (case users_module st of
        None \<Rightarrow> Inl ImportFailed
      | Some allUsers \<Rightarrow>
          (case find (id_matches (parseInt userId)) allUsers of
             None \<Rightarrow> Inr (json_content href not_found)
           | Some foundUser \<Rightarrow> Inr (json_content href (JObject foundUser))))"

section \<open>The driver: \<^verbatim>\<open>client.ts\<close>\<close>

text \<open>
  The driver talks to a user and to a text-generation backend. What they will answer is
  the environment of a run: the answers still to come to \<^verbatim>\<open>confirm\<close> prompts and the
  outcomes still to come of \<^verbatim>\<open>generateText\<close> calls (a text, or the error it throws), each
  consumed in order. When the next one never comes the awaiting call stays pending.
  \<open>console\<close> is what has been printed and \<open>prompts\<close> the prompts sent to the backend.
\<close>

datatype generation_error = GenerationFailed string

record world =
  confirms :: "bool list"
  generations :: "(generation_error + string) list"
  console :: "string list"
  prompts :: "string list"

datatype 'a outcome = Returns 'a | Throws generation_error | Pending

record prompt_message =
  role :: string
  content :: message_content

subsection \<open>\<^verbatim>\<open>handleServerMessagePrompt\<close> (lines 225 to 242)\<close>

text \<open>\<open>Returns None\<close> is the \<^verbatim>\<open>undefined\<close> of a bare \<^verbatim>\<open>return\<close>.\<close>

definition handleServerMessagePrompt ::
  "prompt_message \<Rightarrow> world \<Rightarrow> string option outcome \<times> world" where
  "handleServerMessagePrompt message w =
     (case content message of
        OtherContent ty \<Rightarrow> (Returns None, w)
      | TextContent t \<Rightarrow>
          let w1 = w\<lparr>console := console w @ [t]\<rparr>
          in case confirms w1 of
               [] \<Rightarrow> (Pending, w1)
             | shouldRunPrompt # answers \<Rightarrow>
                 let w2 = w1\<lparr>confirms := answers\<rparr>
                 in if \<not> shouldRunPrompt then (Returns None, w2)
                    else
                      (case generations w2 of
                         [] \<Rightarrow> (Pending, w2\<lparr>prompts := prompts w2 @ [t]\<rparr>)
                       | g # gs \<Rightarrow>
                           let w3 = w2\<lparr>generations := gs, prompts := prompts w2 @ [t]\<rparr>
                           in (case g of
                                 Inl e \<Rightarrow> (Throws e, w3)
                               | Inr generated \<Rightarrow> (Returns (Some generated), w3))))"

subsection \<open>The handler of \<^verbatim>\<open>sampling/createMessage\<close> requests (lines 42 to 58)\<close>

record create_message_result =
  result_role :: string
  model :: string
  stopReason :: string
  result_content :: message_content

text \<open>The \<^verbatim>\<open>for\<close> loop over \<^verbatim>\<open>request.params.messages\<close>, with \<open>generatedTexts\<close> as its
  accumulator.\<close>

fun collect :: "prompt_message list \<Rightarrow> string list \<Rightarrow> world \<Rightarrow> string list outcome \<times> world" where
  "collect [] generatedTexts w = (Returns generatedTexts, w)"
| "collect (message # messages) generatedTexts w =
     (case handleServerMessagePrompt message w of
        (Returns generatedText, w') \<Rightarrow>
          collect messages
            (case generatedText of None \<Rightarrow> generatedTexts | Some t \<Rightarrow> generatedTexts @ [t]) w'
      | (Throws e, w') \<Rightarrow> (Throws e, w')
      | (Pending, w') \<Rightarrow> (Pending, w'))"

definition sampling_handler ::
  "prompt_message list \<Rightarrow> world \<Rightarrow> create_message_result outcome \<times> world" where
  "sampling_handler messages w =
     (case collect messages [] w of
        (Returns generatedTexts, w') \<Rightarrow>
          (Returns \<lparr>result_role = ''user'', model = ''gemini-2.0-flash'',
                    stopReason = ''endTurn'',
                    result_content = TextContent (join [CHR 0x0A] generatedTexts)\<rparr>, w')
      | (Throws e, w') \<Rightarrow> (Throws e, w')
      | (Pending, w') \<Rightarrow> (Pending, w'))"

subsection \<open>\<^verbatim>\<open>handleAutonomousTask\<close> (lines 245 to 277)\<close>

text \<open>One step of multi-step generation is one answer of the language model: a final text,
  or a request for tool calls, which are run and whose results go into the next step.\<close>

datatype model_answer = FinalText string | ToolCalls "string list"

text \<open>Modelled from the spec: the multi-step tool-use loop inside \<^verbatim>\<open>generateText\<close> of the
  text-generation library, which is not under \<^verbatim>\<open>src/\<close>. The spec (section 9) gives it as an
  explicit step counter with a hard ceiling: a step is taken while steps remain, and the
  loop goes on only after a step that called tools. The result is the steps taken.\<close>

fun generateText_steps :: "nat \<Rightarrow> model_answer list \<Rightarrow> model_answer list" where
  "generateText_steps 0 answers = []"
| "generateText_steps (Suc remaining) [] = []"
| "generateText_steps (Suc remaining) (FinalText t # answers) = [FinalText t]"
| "generateText_steps (Suc remaining) (ToolCalls cs # answers) =
     ToolCalls cs # generateText_steps remaining answers"

definition maxSteps :: nat where
  "maxSteps = 5"

definition handleAutonomousTask :: "model_answer list \<Rightarrow> model_answer list" where
  "handleAutonomousTask answers = generateText_steps maxSteps answers"

subsection \<open>The session loop of \<^verbatim>\<open>main\<close> (lines 61 to 132)\<close>

datatype handler = HandleTool | HandleResource | HandlePrompt | HandleQuery | HandleAutonomousTask

definition choices :: "string list" where
  "choices = [''Query'', ''Tools'', ''Resources'', ''Prompts'']"

text \<open>The \<^verbatim>\<open>switch\<close> statement: its clauses in order, each with its label, the handler its
  body awaits and whether the body ends with \<^verbatim>\<open>break\<close>.\<close>

definition clauses :: "(string \<times> handler \<times> bool) list" where
  "clauses =
     [(''Tools'', HandleTool, True),
      (''Resources'', HandleResource, True),
      (''Prompts'', HandlePrompt, True),
      (''Query'', HandleQuery, False),
      (''Autonomous Task'', HandleAutonomousTask, True)]"

text \<open>Execution from a clause on: bodies run in order up to the first \<^verbatim>\<open>break\<close>.\<close>

fun fall_through :: "(string \<times> handler \<times> bool) list \<Rightarrow> handler list" where
  "fall_through [] = []"
| "fall_through ((label, h, breaks) # cs) = (if breaks then [h] else h # fall_through cs)"

fun switch :: "string \<Rightarrow> (string \<times> handler \<times> bool) list \<Rightarrow> handler list" where
  "switch selectedOption [] = []"
| "switch selectedOption ((label, h, breaks) # cs) =
     (if selectedOption = label then fall_through ((label, h, breaks) # cs)
      else switch selectedOption cs)"

definition main_iteration :: "string \<Rightarrow> handler list" where
  "main_iteration selectedOption = switch selectedOption clauses"

section \<open>Auxiliary notions and the inputs of the examples\<close>

text \<open>A character that \<^verbatim>\<open>trim\<close> keeps and that is not a backtick.\<close>

definition inkChar :: "char \<Rightarrow> bool" where
  "inkChar c \<longleftrightarrow> \<not> isWhiteSpace c \<and> c \<noteq> CHR 0x60"

definition one_user :: server_state where
  "one_user =
     \<lparr>users_module = Some [[(''id'', JNumber (Integer 1)), (''name'', JString ''Ada'')]],
      users_file = []\<rparr>"

definition ada_text :: string where
  \<open>ada_text = ''{"name":"Ada","email":"a@b.com","address":"1 Main","phone":"555"}''\<close>

definition ada_object :: obj where
  "ada_object =
     [(''name'', JString ''Ada''), (''email'', JString ''a@b.com''),
      (''address'', JString ''1 Main''), (''phone'', JString ''555'')]"

definition ada_params :: user_params where
  "ada_params = \<lparr>name = ''Ada'', email = ''a@b.com'', address = ''1 Main'', phone = ''555''\<rparr>"

definition empty_store :: server_state where
  "empty_store = \<lparr>users_module = Some [], users_file = ''[]''\<rparr>"

definition plain_fence :: "string \<Rightarrow> string" where
  "plain_fence x = ''```'' @ [CHR 0x0A] @ x @ [CHR 0x0A] @ ''```''"

definition json_fence :: "string \<Rightarrow> string" where
  "json_fence x = ''```json'' @ [CHR 0x0A] @ x @ [CHR 0x0A] @ ''```''"

definition user_record :: "nat \<Rightarrow> user_params \<Rightarrow> obj" where
  "user_record n p =
     [(''id'', JNumber (Integer (int n))), (''name'', JString (name p)),
      (''email'', JString (email p)), (''address'', JString (address p)),
      (''phone'', JString (phone p))]"

fun text_entries :: "prompt_message list \<Rightarrow> string list" where
  "text_entries [] = []"
| "text_entries (m # ms) =
     (case content m of TextContent t \<Rightarrow> t # text_entries ms | OtherContent ty \<Rightarrow> text_entries ms)"

definition confirmed :: "string list \<Rightarrow> bool list \<Rightarrow> string list" where
  "confirmed ts answers = map fst (filter snd (zip ts answers))"

definition fixed_reply :: "string \<Rightarrow> create_message_result" where
  "fixed_reply t =
     \<lparr>result_role = ''user'', model = ''gemini-2.0-flash'', stopReason = ''endTurn'',
      result_content = TextContent t\<rparr>"

definition text_message :: "string \<Rightarrow> prompt_message" where
  "text_message t = \<lparr>role = ''user'', content = TextContent t\<rparr>"

definition image_message :: prompt_message where
  "image_message = \<lparr>role = ''user'', content = OtherContent ''image''\<rparr>"

definition failing_world :: world where
  "failing_world =
     \<lparr>confirms = [True, True], generations = [Inr ''Ada'', Inl (GenerationFailed ''quota'')],
      console = [], prompts = []\<rparr>"

definition ready_world :: world where
  "ready_world =
     \<lparr>confirms = [True, False, True], generations = [Inr ''Ada'', Inr ''Bob''],
      console = [], prompts = []\<rparr>"

definition unreadable_store :: server_state where
  "unreadable_store = \<lparr>users_module = None, users_file = []\<rparr>"

definition large_id_store :: server_state where
  "large_id_store =
     \<lparr>users_module = Some [[(''id'', JNumber (Integer 9007199254740992)), (''name'', JString ''Max'')]],
      users_file = []\<rparr>"

definition unsigned_part :: "string \<Rightarrow> string" where
  "unsigned_part userId =
     (let s = trimStart userId
      in if s \<noteq> [] \<and> (hd s = CHR ''+'' \<or> hd s = CHR ''-'') then tl s else s)"

definition two_users :: server_state where
  "two_users =
     \<lparr>users_module = Some [[(''id'', JNumber (Integer 0)), (''name'', JString ''Zed'')],
                            [(''id'', JNumber (Integer 2)), (''name'', JString ''Bob'')]],
      users_file = []\<rparr>"

section \<open>Properties\<close>

subsection \<open>Evaluation lemmas\<close>

lemmas string_defs =
  trimStart_def trimEnd_def trim_def isWhiteSpace_def startsWith_def endsWith_def
  replace_at_start_def replace_at_end_def isDigit_def digitValue_def digitsValue_def

lemmas stringify_defs =
  JSON_stringify_def wrap_def quoteJSONString_def quoteChar_def numberToString_def

lemma stringify_not_found:
  \<open>JSON_stringify not_found = ''{"error":"User not found"}''\<close>
  by (simp add: JSON_stringify_def not_found_def wrap_def quoteJSONString_def quoteChar_def)

lemma numberValue_0: "numberValue neg 0 q = Integer 0"
  by (simp add: numberValue_def)

lemma numberValue_1: "numberValue False 1 1 = Integer 1"
  by code_simp

lemma numberValue_2: "numberValue False 2 1 = Integer 2"
  by code_simp

lemma numberValue_7: "numberValue False 7 1 = Integer 7"
  by code_simp

lemma numberValue_rounds: "numberValue False 9007199254740993 1 = Integer 9007199254740992"
  by code_simp

lemma isDigit_not_space: "isDigit c \<Longrightarrow> \<not> isWhiteSpace c"
  by (auto simp: isDigit_def isWhiteSpace_def)

lemma isDigit_not_sign: "isDigit c \<Longrightarrow> c \<noteq> CHR ''+'' \<and> c \<noteq> CHR ''-''"
  by (auto simp: isDigit_def)

lemma takeWhile_digits:
  "list_all isDigit ds \<Longrightarrow> rest = [] \<or> \<not> isDigit (hd rest) \<Longrightarrow> takeWhile isDigit (ds @ rest) = ds"
  by (induction ds) (cases rest; auto)+

lemma parseInt_decimal:
  assumes "ds \<noteq> []" and "list_all isDigit ds" and "rest = [] \<or> \<not> isDigit (hd rest)"
    and "\<not> startsWith (ds @ rest) ''0x''" and "\<not> startsWith (ds @ rest) ''0X''"
  shows "parseInt (ds @ rest) = Some (numberValue False (digitsValue ds) 1)"
proof -
  obtain d ds' where ds: "ds = d # ds'" using assms(1) by (cases ds) auto
  have d: "isDigit d" using assms(2) ds by simp
  have t: "trimStart (ds @ rest) = ds @ rest"
    using isDigit_not_space [OF d] by (simp add: trimStart_def ds)
  have tw: "takeWhile isDigit (ds @ rest) = ds"
    using takeWhile_digits assms(2,3) by blast
  show ?thesis
    unfolding parseInt_def t Let_def
    using isDigit_not_sign [OF d] assms(1,4,5) tw by (simp add: ds)
qed

lemma parseInt_no_integer:
  assumes "s = trimStart userId"
    and "s1 = (if s \<noteq> [] \<and> (hd s = CHR ''+'' \<or> hd s = CHR ''-'') then tl s else s)"
    and "s1 = [] \<or> \<not> isDigit (hd s1)"
  shows "parseInt userId = None"
proof -
  have nd: "takeWhile isDigit s1 = []"
    using assms(3) by (cases s1) auto
  have nh: "\<not> startsWith s1 ''0x'' \<and> \<not> startsWith s1 ''0X''"
    using assms(3) by (cases s1) (auto simp: startsWith_def isDigit_def)
  show ?thesis
    unfolding parseInt_def Let_def assms(1)[symmetric] assms(2)[symmetric]
    using nd nh by simp
qed

subsection \<open>Trimming and the fence\<close>

lemma trimEnd_append_ws: "list_all isWhiteSpace w \<Longrightarrow> trimEnd (x @ w) = trimEnd x"
  by (simp add: trimEnd_def dropWhile_append list_all_iff)

lemma trimStart_append_ws: "list_all isWhiteSpace w \<Longrightarrow> trimStart (w @ x) = trimStart x"
  by (simp add: trimStart_def dropWhile_append list_all_iff)

lemma trimStart_Cons: "\<not> isWhiteSpace c \<Longrightarrow> trimStart (c # r) = c # r"
  by (simp add: trimStart_def)

lemma trimEnd_snoc: "\<not> isWhiteSpace c \<Longrightarrow> trimEnd (p @ [c]) = p @ [c]"
  by (simp add: trimEnd_def)

lemma trim_padded:
  assumes "list_all isWhiteSpace w1" and "list_all isWhiteSpace w2"
  shows "trim (w1 @ x @ w2) = trim x"
proof -
  have "trimStart (w1 @ x @ w2) = trimStart (x @ w2)"
    using assms(1) by (rule trimStart_append_ws)
  moreover have "trimEnd (trimStart (x @ w2)) = trimEnd (trimStart x)"
  proof (cases "list_all isWhiteSpace x")
    case True
    then have "trimStart (x @ w2) = []" "trimStart x = []"
      using assms(2) by (simp_all add: trimStart_def list_all_iff)
    then show ?thesis by simp
  next
    case False
    then have "trimStart (x @ w2) = trimStart x @ w2"
      by (auto simp: trimStart_def dropWhile_append list_all_iff)
    then show ?thesis using assms(2) by (simp add: trimEnd_append_ws)
  qed
  ultimately show ?thesis by (simp add: trim_def)
qed

lemma trim_fixed:
  assumes "\<not> isWhiteSpace a" and "\<not> isWhiteSpace b"
  shows "trim (a # m @ [b]) = a # m @ [b]"
proof -
  have "trimEnd ((a # m) @ [b]) = (a # m) @ [b]" using assms(2) by (rule trimEnd_snoc)
  then show ?thesis using assms(1) by (simp add: trim_def trimStart_Cons)
qed

lemma normalise_json_fence:
  assumes "list_all isWhiteSpace w1" and "list_all isWhiteSpace w2"
  shows "normalise (''```json'' @ w1 @ x @ w2 @ ''```'') = trim x"
proof -
  let ?m = "''``json'' @ w1 @ x @ w2 @ ''``''"
  have eq: "''```json'' @ w1 @ x @ w2 @ ''```'' = CHR 0x60 # ?m @ [CHR 0x60]" by simp
  have t: "trim (''```json'' @ w1 @ x @ w2 @ ''```'') = ''```json'' @ w1 @ x @ w2 @ ''```''"
    unfolding eq by (rule trim_fixed) (simp_all add: isWhiteSpace_def)
  have s: "replace_at_start ''```json'' (''```json'' @ w1 @ x @ w2 @ ''```'') = w1 @ x @ w2 @ ''```''"
    by (simp add: replace_at_start_def startsWith_def)
  have e: "replace_at_end ''```'' (w1 @ x @ w2 @ ''```'') = w1 @ x @ w2"
    by (simp add: replace_at_end_def endsWith_def)
  show ?thesis
    unfolding normalise_def t s e using assms by (rule trim_padded)
qed

lemma trimEnd_Cons:
  "\<not> isWhiteSpace c \<Longrightarrow>
     trimEnd (c # r) = c # (if list_all isWhiteSpace r then [] else trimEnd r)"
  by (simp add: trimEnd_def dropWhile_append list_all_iff)

lemma trim_idem: "trim (trim s) = trim s"
proof -
  have a: "trimStart (trimEnd (trimStart s)) = trimEnd (trimStart s)"
  proof (cases "trimStart s")
    case Nil
    then have "trimEnd (trimStart s) = []" by (simp add: trimEnd_def)
    then show ?thesis by (simp add: trimStart_def)
  next
    case (Cons c r)
    then have c: "\<not> isWhiteSpace c"
      unfolding trimStart_def by (metis hd_dropWhile list.sel(1) list.distinct(1))
    then show ?thesis using Cons by (simp add: trimEnd_Cons trimStart_Cons)
  qed
  have b: "trimEnd (trimEnd t) = trimEnd t" for t
    by (simp add: trimEnd_def dropWhile_idem)
  show ?thesis by (simp add: trim_def a b)
qed

lemma normalise_plain:
  assumes "trim x \<noteq> []" and "hd (trim x) \<noteq> CHR 0x60" and "last (trim x) \<noteq> CHR 0x60"
  shows "normalise x = trim x"
proof -
  have s: "replace_at_start ''```json'' (trim x) = trim x"
    using assms(1,2) by (cases "trim x") (auto simp: replace_at_start_def startsWith_def)
  have "\<not> endsWith (trim x) ''```''"
  proof
    assume "endsWith (trim x) ''```''"
    then have "trim x = take (length (trim x) - 3) (trim x) @ ''```''"
      by (metis append_take_drop_id endsWith_def length_Cons list.size(3) numeral_3_eq_3)
    then have "last (trim x) = CHR 0x60"
      by (metis last_appendR last.simps list.distinct(1))
    then show False using assms(3) by simp
  qed
  then have e: "replace_at_end ''```'' (trim x) = trim x"
    by (simp add: replace_at_end_def)
  show ?thesis unfolding normalise_def s e by (rule trim_idem)
qed

subsection \<open>What the lexer consumes\<close>

lemma json_ws_is_ws: "isJsonWhiteSpace c \<Longrightarrow> isWhiteSpace c"
  by (auto simp: isJsonWhiteSpace_def isWhiteSpace_def)

lemma digit_ink: "isDigit c \<Longrightarrow> inkChar c"
  by (auto simp: isDigit_def inkChar_def isWhiteSpace_def)

lemma takeWhile_last:
  assumes "xs \<noteq> []" and "P (hd xs)"
  shows "takeWhile P xs \<noteq> [] \<and> P (last (takeWhile P xs))"
proof -
  have ne: "takeWhile P xs \<noteq> []"
    using assms by (simp add: takeWhile_eq_Nil_iff)
  then have "last (takeWhile P xs) \<in> set (takeWhile P xs)" by simp
  then show ?thesis using ne set_takeWhileD by fastforce
qed

lemma lexStringChars_consumed:
  "lexStringChars cs = Some (s, r) \<Longrightarrow> \<exists>b. cs = b @ CHR 0x22 # r"
proof (induction cs arbitrary: s r rule: length_induct)
  case (1 cs)
  then obtain c cs' where cs: "cs = c # cs'" by (cases cs) auto
  have step: "\<exists>b. cs = b @ CHR 0x22 # r"
    if t: "cs = pre @ t" "pre \<noteq> []" and l: "lexStringChars t = Some (s', r)" for pre t s'
  proof -
    have "length t < length cs" using t by simp
    then obtain b where "t = b @ CHR 0x22 # r" using "1.IH" l by blast
    then have "cs = (pre @ b) @ CHR 0x22 # r" using t(1) by simp
    then show ?thesis by blast
  qed
  show ?case
  proof (cases "c = CHR 0x22")
    case True
    then have "cs = [] @ CHR 0x22 # r" using "1.prems" cs by simp
    then show ?thesis by blast
  next
    case q: False
    show ?thesis
    proof (cases "c = CHR 0x5C")
      case False
      then obtain s' where "lexStringChars cs' = Some (s', r)"
        using "1.prems" q cs by (auto split: if_splits)
      then show ?thesis using step [of "[c]" cs'] cs by simp
    next
      case True
      then obtain e cs1 where cs1: "cs' = e # cs1"
        using "1.prems" q cs by (cases cs') auto
      show ?thesis
      proof (cases "e = CHR ''u''")
        case False
        then obtain s' where "lexStringChars cs1 = Some (s', r)"
          using "1.prems" q True cs cs1 by (auto split: option.splits)
        then show ?thesis using step [of "[c, e]" cs1] cs cs1 by simp
      next
        case u: True
        then obtain h1 h2 h3 h4 cs2 where cs2: "cs1 = h1 # h2 # h3 # h4 # cs2"
          using "1.prems" q True cs cs1 by (auto split: list.splits)
        then obtain s' where "lexStringChars cs2 = Some (s', r)"
          using "1.prems" q True cs cs1 u by (auto split: option.splits)
        then show ?thesis using step [of "[c, e, h1, h2, h3, h4]" cs2] cs cs1 cs2 by simp
      qed
    qed
  qed
qed

lemma lexFraction_consumed:
  "lexFraction s = (fp, r) \<Longrightarrow> \<exists>b. s = b @ r \<and> (b = [] \<or> isDigit (last b))"
proof (cases "\<exists>f t. s = CHR ''.'' # f # t \<and> isDigit f")
  case True
  assume a: "lexFraction s = (fp, r)"
  from True obtain f t where s: "s = CHR ''.'' # f # t" and d: "isDigit f" by blast
  have r: "r = dropWhile isDigit (f # t)" using a s d by (simp add: lexFraction_def)
  have "s = (CHR ''.'' # takeWhile isDigit (f # t)) @ r"
    unfolding r s by (metis append_Cons takeWhile_dropWhile_id)
  moreover have "isDigit (last (CHR ''.'' # takeWhile isDigit (f # t)))"
    using takeWhile_last [of "f # t" isDigit] d by simp
  ultimately show ?thesis by blast
next
  case False
  assume a: "lexFraction s = (fp, r)"
  have "r = s" using a False by (auto simp: lexFraction_def split: list.splits if_splits)
  then show ?thesis by simp
qed

lemma lexExponent_consumed:
  assumes "lexExponent s = (ex, r)"
  shows "\<exists>b. s = b @ r \<and> (b = [] \<or> isDigit (last b))"
proof (cases "r = s")
  case True
  then show ?thesis by simp
next
  case False
  then obtain x t where s: "s = x # t"
    using assms by (cases s) (auto simp: lexExponent_def)
  then obtain g t1 where t: "t = g # t1"
    using assms False by (cases t) (auto simp: lexExponent_def split: if_splits)
  show ?thesis
  proof (cases "isDigit g")
    case True
    then have r: "r = dropWhile isDigit t"
      using assms False s t by (auto simp: lexExponent_def split: if_splits)
    have "s = (x # takeWhile isDigit t) @ r"
      unfolding r s by (metis append_Cons takeWhile_dropWhile_id)
    moreover have "isDigit (last (x # takeWhile isDigit t))"
      using takeWhile_last [of t isDigit] True t by simp
    ultimately show ?thesis by blast
  next
    case nd: False
    then have c: "t1 \<noteq> []" "isDigit (hd t1)" and r: "r = dropWhile isDigit t1"
      using assms False s t by (auto simp: lexExponent_def split: if_splits)
    have "s = (x # g # takeWhile isDigit t1) @ r"
      unfolding r s t by (metis append_Cons takeWhile_dropWhile_id)
    moreover have "isDigit (last (x # g # takeWhile isDigit t1))"
      using takeWhile_last [of t1 isDigit] c by simp
    ultimately show ?thesis by blast
  qed
qed

lemma lexNumber_consumed:
  assumes "lexNumber s = Some (n, r)"
  shows "\<exists>b. s = b @ r \<and> b \<noteq> [] \<and> isDigit (last b)"
proof -
  define sg where "sg = (if s \<noteq> [] \<and> hd s = CHR ''-'' then [CHR ''-''] else [])"
  obtain c cs where s1: "(if s \<noteq> [] \<and> hd s = CHR ''-'' then tl s else s) = c # cs"
    and dig: "isDigit c"
    using assms by (auto simp: lexNumber_def Let_def split: list.splits if_splits)
  have s: "s = sg @ c # cs"
    using s1 unfolding sg_def by (cases s) (auto split: if_splits)
  define ip where "ip = (if c = CHR ''0'' then [c] else c # takeWhile isDigit cs)"
  define r0 where "r0 = (if c = CHR ''0'' then cs else dropWhile isDigit cs)"
  obtain fp r1 where f: "lexFraction r0 = (fp, r1)" by (cases "lexFraction r0")
  obtain ex r2 where e: "lexExponent r1 = (ex, r2)" by (cases "lexExponent r1")
  have r: "r = r2"
    using assms s1 dig f e unfolding lexNumber_def Let_def r0_def
    by (auto split: list.splits if_splits prod.splits)
  have ip: "c # cs = ip @ r0" by (simp add: ip_def r0_def)
  have ipd: "ip \<noteq> [] \<and> isDigit (last ip)"
  proof (cases "c = CHR ''0''")
    case True
    then show ?thesis using dig by (simp add: ip_def)
  next
    case False
    have "ip = takeWhile isDigit (c # cs)" using dig False by (simp add: ip_def)
    then show ?thesis using takeWhile_last [of "c # cs" isDigit] dig by simp
  qed
  obtain bf where bf: "r0 = bf @ r1" "bf = [] \<or> isDigit (last bf)"
    using lexFraction_consumed [OF f] by blast
  obtain be where be: "r1 = be @ r2" "be = [] \<or> isDigit (last be)"
    using lexExponent_consumed [OF e] by blast
  have "s = (sg @ ip @ bf @ be) @ r" using s ip bf(1) be(1) r by simp
  moreover have "sg @ ip @ bf @ be \<noteq> []" using ipd by simp
  moreover have "isDigit (last (sg @ ip @ bf @ be))"
    using ipd bf(2) be(2) by (cases "be = []"; cases "bf = []"; simp)
  ultimately show ?thesis by blast
qed

lemma lex_token:
  assumes "\<not> isJsonWhiteSpace c" and "lex (c # cs) = Some ts"
  shows "\<exists>b r t ts'. c # cs = b @ r \<and> b \<noteq> [] \<and> inkChar (hd b) \<and> inkChar (last b)
           \<and> lex r = Some ts' \<and> ts = t # ts'"
proof -
  have punct: ?thesis
    if i: "inkChar c" and e: "lex (c # cs) = map_option ((#) t) (lex cs)" for t
  proof -
    obtain ts' where "lex cs = Some ts'" "ts = t # ts'"
      using e assms(2) by (cases "lex cs") auto
    moreover have "c # cs = [c] @ cs \<and> [c] \<noteq> [] \<and> inkChar (hd [c]) \<and> inkChar (last [c])"
      using i by simp
    ultimately show ?thesis by blast
  qed
  have lit: ?thesis
    if sw: "startsWith (c # cs) w"
      and e: "lex (c # cs) = map_option ((#) t) (lex (drop n cs))"
      and len: "length w = Suc n"
      and w: "inkChar (hd w)" "inkChar (last w)" for w t n
  proof -
    have d: "drop n cs = drop (length w) (c # cs)"
      using len by simp
    have ne: "w \<noteq> []" using len by auto
    have "c # cs = w @ drop (length w) (c # cs)"
      using sw unfolding startsWith_def by (metis append_take_drop_id)
    moreover obtain ts' where "lex (drop (length w) (c # cs)) = Some ts'" "ts = t # ts'"
      using e assms(2) unfolding d by (cases "lex (drop (length w) (c # cs))") auto
    ultimately show ?thesis using w ne by blast
  qed
  consider (p) "c \<in> set ''{}[]:,''" | (s) "c = CHR 0x22"
    | (n) "c \<notin> set ''{}[]:,''" "c \<noteq> CHR 0x22" "c = CHR ''-'' \<or> isDigit c"
    | (l) "c \<notin> set ''{}[]:,''" "c \<noteq> CHR 0x22" "\<not> (c = CHR ''-'' \<or> isDigit c)"
    by blast
  then show ?thesis
  proof cases
    case p
    then have i: "inkChar c" by (auto simp: inkChar_def isWhiteSpace_def)
    from p consider "c = CHR ''{''" | "c = CHR ''}''" | "c = CHR ''[''" | "c = CHR '']''"
      | "c = CHR '':''" | "c = CHR '',''" by auto
    then show ?thesis
    proof cases
      case 1 then show ?thesis using punct [of LBrace] i assms(1) by simp
    next
      case 2 then show ?thesis using punct [of RBrace] i assms(1) by simp
    next
      case 3 then show ?thesis using punct [of LBracket] i assms(1) by simp
    next
      case 4 then show ?thesis using punct [of RBracket] i assms(1) by simp
    next
      case 5 then show ?thesis using punct [of Colon] i assms(1) by simp
    next
      case 6 then show ?thesis using punct [of Comma] i assms(1) by simp
    qed
  next
    case s
    have eq: "lex (c # cs) =
        (case lexStringChars cs of None \<Rightarrow> None
         | Some (str, r) \<Rightarrow> map_option ((#) (TString str)) (lex r))"
      using s assms(1) by simp
    obtain str r where a: "lexStringChars cs = Some (str, r)"
      using assms(2) unfolding eq by (cases "lexStringChars cs") auto
    obtain ts' where b: "lex r = Some ts'" "ts = TString str # ts'"
      using assms(2) unfolding eq a by (cases "lex r") auto
    obtain m where "cs = m @ CHR 0x22 # r"
      using lexStringChars_consumed [OF a] by blast
    then have "c # cs = (c # m @ [CHR 0x22]) @ r" by simp
    moreover have "inkChar (hd (c # m @ [CHR 0x22]))" "inkChar (last (c # m @ [CHR 0x22]))"
      using s by (simp_all add: inkChar_def isWhiteSpace_def)
    ultimately show ?thesis using b by blast
  next
    case n
    have eq: "lex (c # cs) =
        (case lexNumber (c # cs) of None \<Rightarrow> None
         | Some (x, r) \<Rightarrow> map_option ((#) (TNumber x)) (lex r))"
      using n assms(1) by simp
    obtain x r where a: "lexNumber (c # cs) = Some (x, r)"
      using assms(2) unfolding eq by (cases "lexNumber (c # cs)") auto
    obtain ts' where b: "lex r = Some ts'" "ts = TNumber x # ts'"
      using assms(2) unfolding eq a by (cases "lex r") auto
    obtain m where m: "c # cs = m @ r" "m \<noteq> []" "isDigit (last m)"
      using lexNumber_consumed [OF a] by blast
    have "hd m = c" using m(1,2) by (cases m) auto
    moreover have "inkChar c"
      using n(3) digit_ink by (auto simp: inkChar_def isWhiteSpace_def)
    ultimately show ?thesis using m b digit_ink by blast
  next
    case l
    have eq: "lex (c # cs) =
        (if startsWith (c # cs) ''true'' then map_option ((#) TTrue) (lex (drop 3 cs))
         else if startsWith (c # cs) ''false'' then map_option ((#) TFalse) (lex (drop 4 cs))
         else if startsWith (c # cs) ''null'' then map_option ((#) TNull) (lex (drop 3 cs))
         else None)"
      using l assms(1) by simp
    consider "startsWith (c # cs) ''true''" "lex (c # cs) = map_option ((#) TTrue) (lex (drop 3 cs))"
      | "startsWith (c # cs) ''false''" "lex (c # cs) = map_option ((#) TFalse) (lex (drop 4 cs))"
      | "startsWith (c # cs) ''null''" "lex (c # cs) = map_option ((#) TNull) (lex (drop 3 cs))"
      using assms(2) eq by (cases "startsWith (c # cs) ''true''";
          cases "startsWith (c # cs) ''false''"; cases "startsWith (c # cs) ''null''") simp_all
    then show ?thesis
    proof cases
      case 1
      show ?thesis
        by (rule lit [OF 1(1) 1(2)]) (simp_all add: inkChar_def isWhiteSpace_def)
    next
      case 2
      show ?thesis
        by (rule lit [OF 2(1) 2(2)]) (simp_all add: inkChar_def isWhiteSpace_def)
    next
      case 3
      show ?thesis
        by (rule lit [OF 3(1) 3(2)]) (simp_all add: inkChar_def isWhiteSpace_def)
    qed
  qed
qed

lemma lex_shape:
  "lex s = Some ts \<Longrightarrow>
     (ts = [] \<and> list_all isJsonWhiteSpace s)
     \<or> (\<exists>w c r. s = w @ c # r \<and> list_all isJsonWhiteSpace w \<and> inkChar c)
        \<and> (\<exists>p c w. s = p @ c # w \<and> list_all isJsonWhiteSpace w \<and> inkChar c)"
proof (induction s arbitrary: ts rule: length_induct)
  case (1 s)
  show ?case
  proof (cases s)
    case Nil
    then show ?thesis using "1.prems" by simp
  next
    case (Cons c cs)
    show ?thesis
    proof (cases "isJsonWhiteSpace c")
      case True
      then have "lex cs = Some ts" using "1.prems" Cons by simp
      then have ih: "(ts = [] \<and> list_all isJsonWhiteSpace cs)
         \<or> (\<exists>w c r. cs = w @ c # r \<and> list_all isJsonWhiteSpace w \<and> inkChar c)
            \<and> (\<exists>p c w. cs = p @ c # w \<and> list_all isJsonWhiteSpace w \<and> inkChar c)"
        using "1.IH" Cons by simp
      show ?thesis
      proof (rule disjE [OF ih])
        assume "ts = [] \<and> list_all isJsonWhiteSpace cs"
        then show ?thesis using True Cons by simp
      next
        assume a: "(\<exists>w c r. cs = w @ c # r \<and> list_all isJsonWhiteSpace w \<and> inkChar c)
            \<and> (\<exists>p c w. cs = p @ c # w \<and> list_all isJsonWhiteSpace w \<and> inkChar c)"
        then obtain w x r where "cs = w @ x # r" "list_all isJsonWhiteSpace w" "inkChar x"
          by blast
        then have f: "s = (c # w) @ x # r \<and> list_all isJsonWhiteSpace (c # w) \<and> inkChar x"
          using True Cons by simp
        from a obtain p y w' where "cs = p @ y # w'" "list_all isJsonWhiteSpace w'" "inkChar y"
          by blast
        then have l: "s = (c # p) @ y # w' \<and> list_all isJsonWhiteSpace w' \<and> inkChar y"
          using Cons by simp
        show ?thesis using f l by blast
      qed
    next
      case False
      then obtain b r t ts' where b: "c # cs = b @ r" "b \<noteq> []" "inkChar (hd b)"
        "inkChar (last b)" "lex r = Some ts'" "ts = t # ts'"
        using lex_token "1.prems" Cons by blast
      have f: "\<exists>w x r'. s = w @ x # r' \<and> list_all isJsonWhiteSpace w \<and> inkChar x"
      proof -
        have "s = [] @ hd b # (tl b @ r) \<and> list_all isJsonWhiteSpace [] \<and> inkChar (hd b)"
          using b(1,2,3) Cons by (cases b) auto
        then show ?thesis by blast
      qed
      have "length r < length s" using b(1,2) Cons by (cases b) auto
      then have ih: "(ts' = [] \<and> list_all isJsonWhiteSpace r)
         \<or> (\<exists>w c r'. r = w @ c # r' \<and> list_all isJsonWhiteSpace w \<and> inkChar c)
            \<and> (\<exists>p c w. r = p @ c # w \<and> list_all isJsonWhiteSpace w \<and> inkChar c)"
        using "1.IH" b(5) by blast
      have l: "\<exists>p y w. s = p @ y # w \<and> list_all isJsonWhiteSpace w \<and> inkChar y"
      proof (rule disjE [OF ih])
        assume "ts' = [] \<and> list_all isJsonWhiteSpace r"
        moreover have "s = butlast b @ last b # r" using b(1,2) Cons by simp
        ultimately show ?thesis using b(4) by blast
      next
        assume "(\<exists>w c r'. r = w @ c # r' \<and> list_all isJsonWhiteSpace w \<and> inkChar c)
            \<and> (\<exists>p c w. r = p @ c # w \<and> list_all isJsonWhiteSpace w \<and> inkChar c)"
        then obtain p y w where "r = p @ y # w" "list_all isJsonWhiteSpace w" "inkChar y"
          by blast
        then have "s = (b @ p) @ y # w \<and> list_all isJsonWhiteSpace w \<and> inkChar y"
          using b(1) Cons by simp
        then show ?thesis by blast
      qed
      show ?thesis using f l by blast
    qed
  qed
qed

lemma json_text_trim:
  assumes "JSON_parse x = Some v"
  shows "trim x \<noteq> [] \<and> hd (trim x) \<noteq> CHR 0x60 \<and> last (trim x) \<noteq> CHR 0x60"
proof -
  obtain ts where l: "lex x = Some ts" and r: "run ts (Value, []) = Some v"
    using assms by (auto simp: JSON_parse_def split: option.splits)
  have "ts \<noteq> []" using r by auto
  then obtain w c r' p c' w' where
    f: "x = w @ c # r'" "list_all isJsonWhiteSpace w" "inkChar c" and
    e: "x = p @ c' # w'" "list_all isJsonWhiteSpace w'" "inkChar c'"
    using lex_shape [OF l] by blast
  have ww: "list_all isWhiteSpace w" "list_all isWhiteSpace w'"
    using f(2) e(2) json_ws_is_ws by (auto simp: list_all_iff)
  have c: "\<not> isWhiteSpace c" "c \<noteq> CHR 0x60" "\<not> isWhiteSpace c'" "c' \<noteq> CHR 0x60"
    using f(3) e(3) by (auto simp: inkChar_def)
  have "trimStart x = c # r'"
    unfolding f(1) using ww(1) c(1) by (simp add: trimStart_append_ws trimStart_Cons)
  then have h: "trim x \<noteq> [] \<and> hd (trim x) = c"
    using c(1) by (simp add: trim_def trimEnd_Cons)
  have "trimStart x = dropWhile isWhiteSpace p @ c' # w'"
    unfolding e(1) trimStart_def using c(3) by (rule dropWhile_append3)
  then have "trim x = trimEnd ((dropWhile isWhiteSpace p @ [c']) @ w')"
    by (simp add: trim_def)
  also have "\<dots> = trimEnd (dropWhile isWhiteSpace p @ [c'])"
    using ww(2) by (rule trimEnd_append_ws)
  also have "\<dots> = dropWhile isWhiteSpace p @ [c']"
    using c(3) by (rule trimEnd_snoc)
  finally have "last (trim x) = c'" by simp
  then show ?thesis using h c by simp
qed

subsection \<open>White space after a JSON text\<close>

lemma ws_not_digit: "isWhiteSpace c \<Longrightarrow> \<not> isDigit c"
  using isDigit_not_space by blast

lemma takeWhile_digit_ws:
  "list_all isWhiteSpace w \<Longrightarrow> takeWhile isDigit (s @ w) = takeWhile isDigit s"
  by (induction s) (cases w; auto simp: ws_not_digit)+

lemma dropWhile_digit_ws:
  "list_all isWhiteSpace w \<Longrightarrow> dropWhile isDigit (s @ w) = dropWhile isDigit s @ w"
  by (induction s) (cases w; auto simp: ws_not_digit)+

lemma ws_not_mark:
  "isWhiteSpace c \<Longrightarrow> c \<noteq> CHR ''.'' \<and> c \<noteq> CHR ''e'' \<and> c \<noteq> CHR ''E'' \<and> c \<noteq> CHR ''+''
     \<and> c \<noteq> CHR ''-'' \<and> c \<noteq> CHR 0x22 \<and> c \<noteq> CHR 0x5C \<and> c \<noteq> CHR ''u''"
  by (auto simp: isWhiteSpace_def)

lemma lexFraction_append:
  assumes "list_all isWhiteSpace w"
  shows "lexFraction (s @ w) = (fst (lexFraction s), snd (lexFraction s) @ w)"
proof (cases s)
  case Nil
  then show ?thesis using assms
    by (cases w) (auto simp: lexFraction_def ws_not_mark split: list.splits)
next
  case (Cons d t)
  show ?thesis
  proof (cases t)
    case Nil
    then show ?thesis using assms Cons
      by (cases w) (auto simp: lexFraction_def ws_not_digit)
  next
    case (Cons f r)
    then show ?thesis using assms \<open>s = d # t\<close>
      takeWhile_digit_ws [OF assms, of "f # r"] dropWhile_digit_ws [OF assms, of "f # r"]
      by (auto simp: lexFraction_def split: if_splits)
  qed
qed

lemma lexExponent_append:
  assumes "list_all isWhiteSpace w"
  shows "lexExponent (s @ w) = (fst (lexExponent s), snd (lexExponent s) @ w)"
proof (cases s)
  case Nil
  then show ?thesis using assms
    by (cases w) (auto simp: lexExponent_def ws_not_mark)
next
  case s: (Cons x t)
  show ?thesis
  proof (cases "x = CHR ''e'' \<or> x = CHR ''E''")
    case False
    then show ?thesis using s by (simp add: lexExponent_def)
  next
    case e: True
    show ?thesis
    proof (cases t)
      case Nil
      then show ?thesis using assms s e
        by (cases w; cases "tl w") (auto simp: lexExponent_def ws_not_digit ws_not_mark)
    next
      case t: (Cons g t1)
      show ?thesis
      proof (cases "isDigit g")
        case True
        then show ?thesis using s e t
          takeWhile_digit_ws [OF assms, of "g # t1"] dropWhile_digit_ws [OF assms, of "g # t1"]
          by (simp add: lexExponent_def)
      next
        case nd: False
        show ?thesis
        proof (cases t1)
          case Nil
          then show ?thesis using assms s e t nd
            by (cases w) (auto simp: lexExponent_def ws_not_digit)
        next
          case (Cons h t2)
          then show ?thesis using s e t nd
            takeWhile_digit_ws [OF assms, of "h # t2"] dropWhile_digit_ws [OF assms, of "h # t2"]
            by (auto simp: lexExponent_def split: if_splits)
        qed
      qed
    qed
  qed
qed

lemma lexNumber_append:
  assumes "list_all isWhiteSpace w"
  shows "lexNumber (s @ w) = map_option (\<lambda>(n, r). (n, r @ w)) (lexNumber s)"
proof (cases s)
  case Nil
  then show ?thesis using assms
    by (cases w; cases "tl w")
      (auto simp: lexNumber_def ws_not_digit ws_not_mark Let_def split: list.splits)
next
  case s: (Cons a t)
  show ?thesis
  proof (cases "a = CHR ''-''")
    case neg: True
    show ?thesis
    proof (cases t)
      case Nil
      then show ?thesis using assms s neg
        by (cases w) (auto simp: lexNumber_def ws_not_digit Let_def)
    next
      case (Cons c cs)
      then show ?thesis using s neg
        takeWhile_digit_ws [OF assms, of cs] dropWhile_digit_ws [OF assms, of cs]
        lexFraction_append [OF assms] lexExponent_append [OF assms]
        by (simp add: lexNumber_def Let_def split: prod.splits)
    qed
  next
    case False
    then show ?thesis using s
        takeWhile_digit_ws [OF assms, of t] dropWhile_digit_ws [OF assms, of t]
        lexFraction_append [OF assms] lexExponent_append [OF assms]
      by (simp add: lexNumber_def Let_def split: prod.splits)
  qed
qed

lemma ws_no_escape:
  assumes "isWhiteSpace c"
  shows "escapeChar c = None \<and> hexValue c = None"
proof -
  from assms consider "c = CHR 0x09" | "c = CHR 0x0A" | "c = CHR 0x0B" | "c = CHR 0x0C"
    | "c = CHR 0x0D" | "c = CHR 0x20" | "c = CHR 0xA0"
    by (auto simp: isWhiteSpace_def)
  then show ?thesis by cases (simp_all add: escapeChar_def hexValue_def)
qed

lemma lexStringChars_ws: "list_all isWhiteSpace w \<Longrightarrow> lexStringChars w = None"
proof (induction w)
  case Nil
  then show ?case by simp
next
  case (Cons c w)
  then have c: "isWhiteSpace c" and ih: "lexStringChars w = None" by simp_all
  have "c \<noteq> CHR 0x22" "c \<noteq> CHR 0x5C" using ws_not_mark [OF c] by simp_all
  then have "lexStringChars (c # w) =
      (if (of_char c :: nat) < 32 then None
       else map_option (\<lambda>(s, r). (c # s, r)) (lexStringChars w))"
    by simp
  then show ?case using ih by simp
qed

lemma hex4_ws:
  assumes "list_all isWhiteSpace w" and "length cs1 < 4"
  shows "lexStringChars (CHR 0x5C # CHR ''u'' # cs1 @ w) = None"
proof -
  have short: "lexStringChars (CHR 0x5C # CHR ''u'' # t) = None" if l: "length t < 4" for t
  proof -
    from l consider "t = []" | a where "t = [a]" | a b where "t = [a, b]"
      | a b c where "t = [a, b, c]"
      by (cases t; cases "tl t"; cases "tl (tl t)"; cases "tl (tl (tl t))") auto
    then show ?thesis by cases simp_all
  qed
  have bad: "lexStringChars (CHR 0x5C # CHR ''u'' # h1 # h2 # h3 # h4 # t) = None"
    if "isWhiteSpace h4" for h1 h2 h3 h4 t
  proof -
    have "hexValue h4 = None" using that ws_no_escape by blast
    then show ?thesis by (simp split: option.splits)
  qed
  show ?thesis
  proof (cases "length (cs1 @ w) < 4")
    case True
    then show ?thesis by (rule short)
  next
    case False
    then obtain h1 h2 h3 h4 t where e: "cs1 @ w = h1 # h2 # h3 # h4 # t"
      by (cases "cs1 @ w"; cases "tl (cs1 @ w)"; cases "tl (tl (cs1 @ w))";
          cases "tl (tl (tl (cs1 @ w)))") auto
    have "(cs1 @ w) ! 3 \<in> set w"
      using assms(2) False by (simp add: nth_append)
    then have "isWhiteSpace h4" using e assms(1) by (simp add: list_all_iff)
    then show ?thesis unfolding e append_Cons [symmetric] using bad by simp
  qed
qed

lemma lexStringChars_append:
  assumes "list_all isWhiteSpace w"
  shows "lexStringChars (s @ w) = map_option (\<lambda>(str, r). (str, r @ w)) (lexStringChars s)"
proof (induction s rule: length_induct)
  case (1 s)
  have ih: "lexStringChars (t @ w) = map_option (\<lambda>(str, r). (str, r @ w)) (lexStringChars t)"
    if "length t < length s" for t
    using "1.IH" that by blast
  show ?case
  proof (cases s)
    case Nil
    then show ?thesis using lexStringChars_ws [OF assms] by simp
  next
    case s: (Cons c cs)
    show ?thesis
    proof (cases "c = CHR 0x5C")
      case False
      then show ?thesis using s ih [of cs]
        by (cases "lexStringChars cs") auto
    next
      case b: True
      show ?thesis
      proof (cases cs)
        case Nil
        then show ?thesis using s b assms
          by (cases w) (auto simp: ws_no_escape ws_not_mark)
      next
        case cs: (Cons e cs1)
        show ?thesis
        proof (cases "e = CHR ''u''")
          case False
          then show ?thesis using s b cs ih [of cs1]
            by (cases "lexStringChars cs1") (auto split: option.splits)
        next
          case u: True
          show ?thesis
          proof (cases "length cs1 < 4")
            case True
            then have "lexStringChars s = None"
              using hex4_ws [of "[]" cs1] s b cs u by simp
            then show ?thesis using hex4_ws [OF assms True] s b cs u by simp
          next
            case False
            then obtain h1 h2 h3 h4 cs2 where h: "cs1 = h1 # h2 # h3 # h4 # cs2"
              by (cases cs1; cases "tl cs1"; cases "tl (tl cs1)"; cases "tl (tl (tl cs1))") auto
            show ?thesis using s b cs u h ih [of cs2]
              by (cases "lexStringChars cs2") (auto split: option.splits)
          qed
        qed
      qed
    qed
  qed
qed

lemma startsWith_append_ws:
  "list_all isWhiteSpace w \<Longrightarrow> \<forall>c \<in> set lit. \<not> isWhiteSpace c \<Longrightarrow>
     startsWith (s @ w) lit = startsWith s lit"
proof (induction lit arbitrary: s)
  case Nil
  then show ?case by (simp add: startsWith_def)
next
  case (Cons a l)
  show ?case
  proof (cases s)
    case Nil
    then show ?thesis using Cons.prems by (cases w) (auto simp: startsWith_def)
  next
    case (Cons b s')
    then show ?thesis using Cons.IH [of s'] Cons.prems by (auto simp: startsWith_def)
  qed
qed

lemma startsWith_length:
  assumes "startsWith s lit"
  shows "length lit \<le> length s"
proof -
  have "length (take (length lit) s) = length lit"
    using assms by (simp add: startsWith_def)
  then show ?thesis by simp
qed

lemma lex_ws: "list_all isJsonWhiteSpace w \<Longrightarrow> lex (w @ s) = lex s"
proof (induction w)
  case Nil
  then show ?case by simp
next
  case (Cons a w)
  then have a: "isJsonWhiteSpace a" by simp
  have e: "lex ((a # w) @ s) = lex (w @ s)" using a by simp
  have "lex (w @ s) = lex s" using Cons by simp
  then show ?case using e by (simp only:)
qed

lemma lex_append_ws:
  assumes "list_all isJsonWhiteSpace w"
  shows "lex (s @ w) = lex s"
proof (induction s rule: length_induct)
  case (1 s)
  have ws: "list_all isWhiteSpace w"
    using assms json_ws_is_ws by (auto simp: list_all_iff)
  have ih: "lex (t @ w) = lex t" if "length t < length s" for t
    using "1.IH" that by blast
  show ?case
  proof (cases s)
    case Nil
    then show ?thesis using lex_ws [OF assms, of "[]"] by simp
  next
    case s: (Cons c cs)
    have app: "(c # cs) @ w = c # (cs @ w)" by simp
    show ?thesis
    proof (cases "isJsonWhiteSpace c")
      case True
      have "lex (c # t) = lex t" for t using True by simp
      then show ?thesis unfolding s app using ih [of cs] s by simp
    next
      case nw: False
      consider (p) "c \<in> set ''{}[]:,''" | (q) "c = CHR 0x22"
        | (n) "c \<notin> set ''{}[]:,''" "c \<noteq> CHR 0x22" "c = CHR ''-'' \<or> isDigit c"
        | (l) "c \<notin> set ''{}[]:,''" "c \<noteq> CHR 0x22" "\<not> (c = CHR ''-'' \<or> isDigit c)"
        by blast
      then show ?thesis
      proof cases
        case p
        have "\<exists>tok. \<forall>t. lex (c # t) = map_option ((#) tok) (lex t)"
        proof -
          from p consider "c = CHR ''{''" | "c = CHR ''}''" | "c = CHR ''[''" | "c = CHR '']''"
            | "c = CHR '':''" | "c = CHR '',''" by auto
          then show ?thesis
          proof cases
            case 1 then have "\<forall>t. lex (c # t) = map_option ((#) LBrace) (lex t)"
              using nw by simp
            then show ?thesis by blast
          next
            case 2 then have "\<forall>t. lex (c # t) = map_option ((#) RBrace) (lex t)"
              using nw by simp
            then show ?thesis by blast
          next
            case 3 then have "\<forall>t. lex (c # t) = map_option ((#) LBracket) (lex t)"
              using nw by simp
            then show ?thesis by blast
          next
            case 4 then have "\<forall>t. lex (c # t) = map_option ((#) RBracket) (lex t)"
              using nw by simp
            then show ?thesis by blast
          next
            case 5 then have "\<forall>t. lex (c # t) = map_option ((#) Colon) (lex t)"
              using nw by simp
            then show ?thesis by blast
          next
            case 6 then have "\<forall>t. lex (c # t) = map_option ((#) Comma) (lex t)"
              using nw by simp
            then show ?thesis by blast
          qed
        qed
        then obtain tok where e: "lex (c # t) = map_option ((#) tok) (lex t)" for t by blast
        have "lex (cs @ w) = lex cs" using ih [of cs] s by simp
        then show ?thesis unfolding s app e by (simp only:)
      next
        case q
        have e: "lex (c # t) =
            (case lexStringChars t of None \<Rightarrow> None
             | Some (str, r) \<Rightarrow> map_option ((#) (TString str)) (lex r))" for t
          using q nw by simp
        show ?thesis
        proof (cases "lexStringChars cs")
          case None
          then show ?thesis unfolding s app e lexStringChars_append [OF ws] by simp
        next
          case (Some a)
          then obtain str r where a: "lexStringChars cs = Some (str, r)" by (cases a) auto
          have "length r < length s" using lexStringChars_shorter [OF a] s by simp
          then have "lex (r @ w) = lex r" by (rule ih)
          then show ?thesis unfolding s app e lexStringChars_append [OF ws] a by simp
        qed
      next
        case n
        have e: "lex (c # t) =
            (case lexNumber (c # t) of None \<Rightarrow> None
             | Some (x, r) \<Rightarrow> map_option ((#) (TNumber x)) (lex r))" for t
          using n nw by simp
        have na: "lexNumber (c # (cs @ w)) = map_option (\<lambda>(x, r). (x, r @ w)) (lexNumber (c # cs))"
          using lexNumber_append [OF ws, of "c # cs"] by simp
        show ?thesis
        proof (cases "lexNumber (c # cs)")
          case None
          then show ?thesis unfolding s app e na by simp
        next
          case (Some a)
          then obtain x r where a: "lexNumber (c # cs) = Some (x, r)" by (cases a) auto
          have "length r < length s" using lexNumber_shorter [OF a] s by simp
          then have "lex (r @ w) = lex r" by (rule ih)
          then show ?thesis unfolding s app e na a by simp
        qed
      next
        case l
        have e: "lex (c # t) =
          (if startsWith (c # t) ''true'' then map_option ((#) TTrue) (lex (drop 3 t))
           else if startsWith (c # t) ''false'' then map_option ((#) TFalse) (lex (drop 4 t))
           else if startsWith (c # t) ''null'' then map_option ((#) TNull) (lex (drop 3 t))
           else None)" for t
          using l nw by simp
        have sw: "startsWith (c # (cs @ w)) lit = startsWith (c # cs) lit"
          if "\<forall>x \<in> set lit. \<not> isWhiteSpace x" for lit
          using startsWith_append_ws [OF ws that, of "c # cs"] by simp
        have dr: "lex (drop k (cs @ w)) = lex (drop k cs)"
          if "startsWith (c # cs) lit" "length lit = Suc k" for lit k
        proof -
          have "k \<le> length cs" using startsWith_length [OF that(1)] that(2) by simp
          then have "drop k (cs @ w) = drop k cs @ w" by simp
          moreover have "length (drop k cs) < length s" using s by simp
          ultimately show ?thesis using ih by simp
        qed
        have t: "startsWith (c # (cs @ w)) ''true'' = startsWith (c # cs) ''true''"
          by (rule sw) (simp add: isWhiteSpace_def)
        have f: "startsWith (c # (cs @ w)) ''false'' = startsWith (c # cs) ''false''"
          by (rule sw) (simp add: isWhiteSpace_def)
        have u: "startsWith (c # (cs @ w)) ''null'' = startsWith (c # cs) ''null''"
          by (rule sw) (simp add: isWhiteSpace_def)
        show ?thesis
          unfolding s app e t f u
          using dr [of "''true''" 3] dr [of "''false''" 4] dr [of "''null''" 3]
          by (simp del: lex.simps)
      qed
    qed
  qed
qed

lemma lex_no_tokens: "lex s = Some [] \<Longrightarrow> list_all isJsonWhiteSpace s"
proof (induction s)
  case Nil
  then show ?case by simp
next
  case (Cons c cs)
  show ?case
  proof (cases "isJsonWhiteSpace c")
    case True
    then have "lex cs = Some []" using Cons.prems by simp
    then show ?thesis using Cons.IH True by simp
  next
    case False
    then show ?thesis using lex_token [OF False Cons.prems] by blast
  qed
qed

lemma trim_decomposition:
  assumes "lex x = Some ts"
  shows "\<exists>w w'. list_all isJsonWhiteSpace w \<and> list_all isJsonWhiteSpace w' \<and> x = w @ trim x @ w'"
proof (cases "ts = []")
  case True
  then have a: "list_all isJsonWhiteSpace x" using lex_no_tokens assms by blast
  then have "list_all isWhiteSpace x" using json_ws_is_ws by (auto simp: list_all_iff)
  then have "trimStart x = []" by (simp add: trimStart_def list_all_iff)
  then have "trim x = []" by (simp add: trim_def trimEnd_def)
  then have "list_all isJsonWhiteSpace x \<and> list_all isJsonWhiteSpace [] \<and> x = x @ trim x @ []"
    using a by simp
  then show ?thesis by blast
next
  case False
  then obtain w c r' p c' w' where
    f: "x = w @ c # r'" "list_all isJsonWhiteSpace w" "inkChar c" and
    e: "x = p @ c' # w'" "list_all isJsonWhiteSpace w'" "inkChar c'"
    using lex_shape [OF assms] by blast
  have ww: "list_all isWhiteSpace w" "list_all isWhiteSpace w'"
    using f(2) e(2) json_ws_is_ws by (auto simp: list_all_iff)
  have c: "\<not> isWhiteSpace c" "\<not> isWhiteSpace c'"
    using f(3) e(3) by (auto simp: inkChar_def)
  have s: "trimStart x = c # r'"
    unfolding f(1) using ww(1) c(1) by (simp add: trimStart_append_ws trimStart_Cons)
  have s': "trimStart x = dropWhile isWhiteSpace p @ c' # w'"
    unfolding e(1) trimStart_def using c(2) by (rule dropWhile_append3)
  then have "trim x = trimEnd ((dropWhile isWhiteSpace p @ [c']) @ w')"
    by (simp add: trim_def)
  also have "\<dots> = trimEnd (dropWhile isWhiteSpace p @ [c'])"
    using ww(2) by (rule trimEnd_append_ws)
  also have "\<dots> = dropWhile isWhiteSpace p @ [c']"
    using c(2) by (rule trimEnd_snoc)
  finally have "trimStart x = trim x @ w'" using s' by simp
  then have "x = w @ trim x @ w'" using f(1) s by simp
  then show ?thesis using f(2) e(2) by blast
qed

lemma lex_trim: "lex x = Some ts \<Longrightarrow> lex (trim x) = Some ts"
proof -
  assume a: "lex x = Some ts"
  then obtain w w' where w: "list_all isJsonWhiteSpace w" "list_all isJsonWhiteSpace w'"
    "x = w @ trim x @ w'"
    using trim_decomposition by blast
  have "lex (w @ trim x @ w') = lex (trim x @ w')" using w(1) by (rule lex_ws)
  also have "\<dots> = lex (trim x)" using w(2) by (rule lex_append_ws)
  finally show ?thesis using a w(3) by simp
qed

lemma parse_trim:
  assumes "JSON_parse x = Some v"
  shows "JSON_parse (trim x) = Some v"
proof -
  obtain ts where l: "lex x = Some ts" and r: "run ts (Value, []) = Some v"
    using assms by (cases "lex x") (simp_all add: JSON_parse_def)
  have "lex (trim x) = Some ts" using l by (rule lex_trim)
  then show ?thesis using r by (simp add: JSON_parse_def)
qed

subsection \<open>The step loop\<close>

lemma generateText_steps_bound: "length (generateText_steps n answers) \<le> n"
  by (induction n answers rule: generateText_steps.induct) simp_all

subsection \<open>The tools\<close>

lemma parse_ada: "JSON_parse ada_text = Some (JObject ada_object)"
  unfolding ada_text_def ada_object_def by code_simp

lemma trim_ada: "trim ada_text = ada_text"
  unfolding ada_text_def by (simp add: string_defs)

lemma normalise_ada: "normalise ada_text = ada_text"
  unfolding ada_text_def by (simp add: normalise_def string_defs)

lemma not_index_key:
  "\<not> isArrayIndex ''id''" "\<not> isArrayIndex ''name''" "\<not> isArrayIndex ''email''"
  "\<not> isArrayIndex ''address''" "\<not> isArrayIndex ''phone''"
  by (simp_all add: isArrayIndex_def isDigit_def)

lemma spread_user:
  "spread [(''id'', i)] (JObject [(''name'', a), (''email'', b), (''address'', c), (''phone'', d)])
     = [(''id'', i), (''name'', a), (''email'', b), (''address'', c), (''phone'', d)]"
  by (simp add: spread_def ownProperties_def defineProperty_def not_index_key)

lemma parse_plain_fence_ada: "JSON_parse (normalise (plain_fence ada_text)) = None"
  unfolding ada_text_def plain_fence_def by code_simp

lemma parse_plain_fence: "JSON_parse (normalise (plain_fence ''{}'')) = None"
  unfolding plain_fence_def by code_simp

lemma parse_braces: "JSON_parse (normalise ''{}'') = Some (JObject [])"
  by code_simp

lemma createUser_params:
  assumes "users_module st = Some allUsers"
  shows "createUser (params_object p) w st =
     (if w = Written then Inr (length allUsers + 1) else Inl WriteFailed,
      st\<lparr>users_module := Some (allUsers @ [user_record (length allUsers + 1) p]),
         users_file := writeFile
           (JSON_stringify_2 (JArray (map JObject (allUsers @ [user_record (length allUsers + 1) p]))))
           w (users_file st)\<rparr>)"
  using assms
  by (simp add: createUser_def params_object_def spread_user user_record_def Let_def)

lemma writeFile_Written: "writeFile data Written file = data"
  by (simp add: writeFile_def)

lemma params_ada: "params_object ada_params = JObject ada_object"
  by (simp add: params_object_def ada_params_def ada_object_def)

lemma create_user_failed_write:
  assumes "users_module st = Some allUsers" and "w \<noteq> Written"
  shows "fst (create_user p w st) = text_item ''Failed to save user''"
    and "users_module (snd (create_user p w st))
           = Some (allUsers @ [user_record (length allUsers + 1) p])"
    and "users_all href (snd (create_user p w st)) =
           Inr (json_content href
                 (JArray (map JObject (allUsers @ [user_record (length allUsers + 1) p]))))"
  using assms by (simp_all add: create_user_def createUser_params users_all_def)

lemma created_text_1: "created_text 1 = ''User 1 created successfully''"
  by code_simp

lemma created_text_2: "created_text 2 = ''User 2 created successfully''"
  by code_simp

text \<open>
  Claim C4 at the failing input. On the empty store, a \<^verbatim>\<open>create-user\<close> call whose write
  fails (the file cannot be opened) returns the failure item "Failed to save user". The
  record has nevertheless been appended to the in-memory collection: \<^verbatim>\<open>users://all\<close> read
  afterwards lists it, and so differs from \<^verbatim>\<open>users://all\<close> read before; and the next
  \<^verbatim>\<open>create-user\<close> call, whose write succeeds, reports id 2 and writes both records to the
  file.
\<close>

theorem failed_write_leaves_record_visible:
  "fst (create_user ada_params NotOpened empty_store) = text_item ''Failed to save user''
   \<and> users_all ''users://all'' (snd (create_user ada_params NotOpened empty_store))
       = Inr (json_content ''users://all'' (JArray [JObject (user_record 1 ada_params)]))
   \<and> users_all ''users://all'' (snd (create_user ada_params NotOpened empty_store))
       \<noteq> users_all ''users://all'' empty_store
   \<and> create_user ada_params Written (snd (create_user ada_params NotOpened empty_store))
       = (text_item ''User 2 created successfully'',
          empty_store\<lparr>users_module := Some [user_record 1 ada_params, user_record 2 ada_params],
            users_file := JSON_stringify_2
              (JArray [JObject (user_record 1 ada_params), JObject (user_record 2 ada_params)])\<rparr>)"
proof -
  have m: "users_module empty_store = Some []" by (simp add: empty_store_def)
  have w: "NotOpened \<noteq> Written" by simp
  let ?st = "snd (create_user ada_params NotOpened empty_store)"
  have f: "fst (create_user ada_params NotOpened empty_store) = text_item ''Failed to save user''"
    using create_user_failed_write(1) [OF m w] by simp
  have st: "?st = empty_store\<lparr>users_module := Some [user_record 1 ada_params]\<rparr>"
    by (simp add: create_user_def createUser_params [OF m] writeFile_def)
  have m1: "users_module (empty_store\<lparr>users_module := Some [user_record 1 ada_params]\<rparr>)
      = Some [user_record 1 ada_params]"
    by simp
  have a: "users_all ''users://all'' ?st
      = Inr (json_content ''users://all'' (JArray [JObject (user_record 1 ada_params)]))"
    using create_user_failed_write(3) [OF m w] by simp
  have b: "users_all ''users://all'' empty_store = Inr (json_content ''users://all'' (JArray []))"
    by (simp add: users_all_def m)
  have d: "users_all ''users://all'' ?st \<noteq> users_all ''users://all'' empty_store"
    unfolding a b by (simp add: json_content_def JSON_stringify_def wrap_def)
  have n: "create_user ada_params Written ?st
      = (text_item ''User 2 created successfully'',
         empty_store\<lparr>users_module := Some [user_record 1 ada_params, user_record 2 ada_params],
           users_file := JSON_stringify_2
             (JArray [JObject (user_record 1 ada_params), JObject (user_record 2 ada_params)])\<rparr>)"
    unfolding st
    using createUser_params [OF m1, of ada_params Written] created_text_2
    by (simp add: create_user_def writeFile_def numeral_2_eq_2)
  show ?thesis using f a d n by blast
qed

lemma random_user_parse_failure:
  "JSON_parse (normalise t) = None \<Longrightarrow>
     create_random_user (TextContent t) w st = (text_item ''Failed to generate user data'', st)"
  by (simp add: create_random_user_def)

text \<open>
  Claim C2 at the failing input. The sampling reply \<^verbatim>\<open>{}\<close> parses as JSON but has none of
  the four fields of the User schema; the tool nevertheless appends the record
  \<^verbatim>\<open>{"id":1}\<close> to the empty store and returns the success item.
\<close>

theorem malformed_record_is_stored:
  "fst (create_random_user (TextContent ''{}'') Written empty_store)
     = text_item ''User 1 created successfully''
   \<and> users_module (snd (create_random_user (TextContent ''{}'') Written empty_store))
     = Some [[(''id'', JNumber (Integer 1))]]"
  using created_text_1
  by (simp add: create_random_user_def parse_braces createUser_def empty_store_def
      spread_def ownProperties_def Let_def writeFile_def)

text \<open>
  Claim C1, as amended. For every run of \<^verbatim>\<open>create-random-user\<close> on a readable store whose
  write succeeds, in which the sampling reply is the text
  \<^verbatim>\<open>{"name":"Ada","email":"a@b.com","address":"1 Main","phone":"555"}\<close>, bare or
  between the markers \<^verbatim>\<open>```json\<close> and \<^verbatim>\<open>```\<close> with white space around it, exactly one record
  is appended, with id the previous count plus one and the four fields, the file is
  rewritten with the new collection, and the tool returns the success item reporting
  that id.
\<close>

theorem random_user_round_trip:
  assumes "users_module st = Some allUsers"
    and "t = ada_text \<or> (\<exists>w1 w2. list_all isWhiteSpace w1 \<and> list_all isWhiteSpace w2
            \<and> t = ''```json'' @ w1 @ ada_text @ w2 @ ''```'')"
  shows "create_random_user (TextContent t) Written st =
           (text_item (created_text (length allUsers + 1)),
            st\<lparr>users_module := Some (allUsers @ [user_record (length allUsers + 1) ada_params]),
               users_file := JSON_stringify_2
                 (JArray (map JObject (allUsers @ [user_record (length allUsers + 1) ada_params])))\<rparr>)"
proof -
  have "normalise t = ada_text"
    using assms(2) normalise_ada trim_ada by (auto simp only: normalise_json_fence)
  then have "JSON_parse (normalise t) = Some (params_object ada_params)"
    by (simp add: parse_ada params_ada)
  then show ?thesis
    using assms(1) by (simp add: create_random_user_def createUser_params writeFile_Written)
qed

text \<open>
  Counterexample to claim C1 as stated: with the text fenced in triple backticks that
  carry no \<^verbatim>\<open>json\<close> tag the tool returns the failure item and the store is unchanged; and
  with the bare text and a failing write the tool returns the failure item.
\<close>

theorem random_user_plain_fence_or_failed_write:
  "create_random_user (TextContent (plain_fence ada_text)) Written empty_store
     = (text_item ''Failed to generate user data'', empty_store)
   \<and> fst (create_random_user (TextContent ada_text) NotOpened empty_store)
     = text_item ''Failed to generate user data''"
proof -
  have m: "users_module empty_store = Some []" by (simp add: empty_store_def)
  have p: "JSON_parse (normalise ada_text) = Some (params_object ada_params)"
    by (simp add: normalise_ada parse_ada params_ada)
  have "create_random_user (TextContent (plain_fence ada_text)) Written empty_store
     = (text_item ''Failed to generate user data'', empty_store)"
    by (rule random_user_parse_failure [OF parse_plain_fence_ada])
  moreover have "fst (create_random_user (TextContent ada_text) NotOpened empty_store)
     = text_item ''Failed to generate user data''"
    by (simp add: create_random_user_def p createUser_params [OF m])
  ultimately show ?thesis by simp
qed

theorem random_user_round_trip_witness:
  "users_module empty_store = Some []
   \<and> create_random_user (TextContent (json_fence ada_text)) Written empty_store =
       (text_item ''User 1 created successfully'',
        empty_store\<lparr>users_module := Some [user_record 1 ada_params],
          users_file := JSON_stringify_2 (JArray [JObject (user_record 1 ada_params)])\<rparr>)"
proof -
  have m: "users_module empty_store = Some []" by (simp add: empty_store_def)
  have w: "list_all isWhiteSpace [CHR 0x0A]" by (simp add: isWhiteSpace_def)
  have t: "json_fence ada_text = ada_text \<or> (\<exists>w1 w2. list_all isWhiteSpace w1 \<and> list_all isWhiteSpace w2
            \<and> json_fence ada_text = ''```json'' @ w1 @ ada_text @ w2 @ ''```'')"
    unfolding json_fence_def using w by blast
  show ?thesis
    using m random_user_round_trip [OF m t] created_text_1 by simp
qed

text \<open>
  Claim C6, as amended. For every JSON text \<open>x\<close>, the normalisation of
  \<^verbatim>\<open>create-random-user\<close> strips a leading \<^verbatim>\<open>```json\<close> marker and a trailing \<^verbatim>\<open>```\<close> marker,
  so that a reply consisting of \<open>x\<close> between these markers, with white space around it,
  parses to the same value as a reply consisting of \<open>x\<close> alone: the value of \<open>x\<close>.
\<close>

theorem json_fence_parses_alike:
  assumes "JSON_parse x = Some v"
    and "list_all isWhiteSpace w1" and "list_all isWhiteSpace w2"
  shows "JSON_parse (normalise (''```json'' @ w1 @ x @ w2 @ ''```'')) = Some v
         \<and> JSON_parse (normalise x) = Some v"
proof -
  have "normalise x = trim x"
    using json_text_trim [OF assms(1)] by (simp add: normalise_plain)
  moreover have "JSON_parse (trim x) = Some v"
    using assms(1) by (rule parse_trim)
  ultimately show ?thesis by (simp only: normalise_json_fence [OF assms(2,3)])
qed

text \<open>
  Counterexample to claim C6 as stated: \<^verbatim>\<open>{}\<close> in a triple-backtick fence without the
  \<^verbatim>\<open>json\<close> tag does not parse, while \<^verbatim>\<open>{}\<close> alone parses to the empty object.
\<close>

theorem plain_fence_parses_differently:
  "JSON_parse (normalise (plain_fence ''{}'')) \<noteq> JSON_parse (normalise ''{}'')"
  by (simp add: parse_plain_fence parse_braces)

theorem json_fence_parses_alike_witness:
  "JSON_parse ada_text = Some (JObject ada_object)
   \<and> list_all isWhiteSpace [CHR 0x0A]
   \<and> JSON_parse (normalise (json_fence ada_text)) = Some (JObject ada_object)
   \<and> JSON_parse (normalise ada_text) = Some (JObject ada_object)"
proof -
  have w: "list_all isWhiteSpace [CHR 0x0A]" by (simp add: isWhiteSpace_def)
  show ?thesis
    unfolding json_fence_def
    using parse_ada w json_fence_parses_alike [OF parse_ada w w] by (simp only:)
qed

subsection \<open>The resources\<close>

text \<open>
  Claim C5, as amended. For every \<open>userId\<close> that matches no record of a store that can be
  read (no record's \<open>id\<close> is strictly equal to \<^verbatim>\<open>parseInt(userId)\<close>), reading
  \<^verbatim>\<open>users://{userId}/profile\<close> returns normally, with one JSON content item whose text is
  the object \<^verbatim>\<open>{"error":"User not found"}\<close>; the handler does not throw.
\<close>

theorem absent_user_not_found:
  assumes "users_module st = Some allUsers"
    and "\<forall>user \<in> set allUsers. \<not> id_matches (parseInt userId) user"
  shows \<open>user_details href userId st =
           Inr [\<lparr>uri = href, text_of = ''{"error":"User not found"}'',
                 mimeType = ''application/json''\<rparr>]\<close>
proof -
  have "find (id_matches (parseInt userId)) allUsers = None"
    using assms(2) by (simp add: find_None_iff)
  then show ?thesis
    using assms(1) by (simp add: user_details_def json_content_def stringify_not_found)
qed

text \<open>
  Counterexample to claim C5 as stated: when the store cannot be loaded (the \<^verbatim>\<open>import()\<close>
  rejects) there is no record that matches \<^verbatim>\<open>7\<close>, and the handler throws instead of
  returning the "not found" payload.
\<close>

theorem unreadable_store_is_an_error:
  "users_module unreadable_store = None
   \<and> user_details ''users://7/profile'' ''7'' unreadable_store = Inl ImportFailed"
  by (simp add: user_details_def unreadable_store_def)

lemma parseInt_7: "parseInt ''7'' = Some (Integer 7)"
  by (simp add: parseInt_def string_defs numberValue_7)

theorem absent_user_not_found_witness:
  \<open>users_module one_user = Some [[(''id'', JNumber (Integer 1)), (''name'', JString ''Ada'')]]
   \<and> \<not> id_matches (parseInt ''7'') [(''id'', JNumber (Integer 1)), (''name'', JString ''Ada'')]
   \<and> user_details ''users://7/profile'' ''7'' one_user =
       Inr [\<lparr>uri = ''users://7/profile'', text_of = ''{"error":"User not found"}'',
             mimeType = ''application/json''\<rparr>]\<close>
proof -
  have m: "users_module one_user = Some [[(''id'', JNumber (Integer 1)), (''name'', JString ''Ada'')]]"
    by (simp add: one_user_def)
  have n: "\<not> id_matches (parseInt ''7'') [(''id'', JNumber (Integer 1)), (''name'', JString ''Ada'')]"
    by (simp add: id_matches_def parseInt_7)
  show ?thesis
    using m n absent_user_not_found [OF m, of "''7''" "''users://7/profile''"] by simp
qed

text \<open>
  The comparison is between Numbers: \<^verbatim>\<open>parseInt\<close> gives the double nearest to
  9007199254740993, which is 9007199254740992, so that \<open>userId\<close> matches the record with
  the id 9007199254740992 and its profile is returned.
\<close>

lemma parseInt_rounds: "parseInt ''9007199254740993'' = Some (Integer 9007199254740992)"
proof -
  have "digitsValue ''9007199254740993'' = 9007199254740993"
    by (simp add: digitsValue_def digitValue_def)
  then show ?thesis
    by (simp add: parseInt_def trimStart_def isWhiteSpace_def startsWith_def isDigit_def
        numberValue_rounds)
qed

lemma rounded_id_is_found:
  "user_details ''users://9007199254740993/profile'' ''9007199254740993'' large_id_store =
     Inr (json_content ''users://9007199254740993/profile''
           (JObject [(''id'', JNumber (Integer 9007199254740992)), (''name'', JString ''Max'')]))"
  by (simp add: user_details_def large_id_store_def parseInt_rounds id_matches_def)

text \<open>
  Claim C10, as amended. For every \<open>userId\<close> supplied to \<^verbatim>\<open>users://{userId}/profile\<close> on a
  readable store, the handler returns content and does not throw. A \<open>userId\<close> that
  starts with decimal digits, not with the prefix \<^verbatim>\<open>0x\<close> or \<^verbatim>\<open>0X\<close>, returns the profile of
  the first record whose id is the Number these digits denote, the nearest double
  (whatever follows the digits). A \<open>userId\<close> that, after leading white space and an optional sign, does not
  start with a digit returns the "not found" payload.
\<close>

theorem profile_matches_integer_prefix:
  assumes "users_module st = Some allUsers"
  shows "(\<exists>payload. user_details href userId st = Inr (json_content href payload))
    \<and> (ds \<noteq> [] \<and> list_all isDigit ds \<and> (rest = [] \<or> \<not> isDigit (hd rest))
         \<and> \<not> startsWith (ds @ rest) ''0x'' \<and> \<not> startsWith (ds @ rest) ''0X''
         \<and> find (id_matches (Some (numberValue False (digitsValue ds) 1))) allUsers = Some user
       \<longrightarrow> user_details href (ds @ rest) st = Inr (json_content href (JObject user)))
    \<and> (unsigned_part userId = [] \<or> \<not> isDigit (hd (unsigned_part userId))
       \<longrightarrow> user_details href userId st = Inr (json_content href not_found))"
proof (intro conjI impI)
  show "\<exists>payload. user_details href userId st = Inr (json_content href payload)"
    using assms by (auto simp: user_details_def split: option.splits)
next
  assume a: "ds \<noteq> [] \<and> list_all isDigit ds \<and> (rest = [] \<or> \<not> isDigit (hd rest))
         \<and> \<not> startsWith (ds @ rest) ''0x'' \<and> \<not> startsWith (ds @ rest) ''0X''
         \<and> find (id_matches (Some (numberValue False (digitsValue ds) 1))) allUsers = Some user"
  then have "parseInt (ds @ rest) = Some (numberValue False (digitsValue ds) 1)"
    by (intro parseInt_decimal) simp_all
  then show "user_details href (ds @ rest) st = Inr (json_content href (JObject user))"
    using assms a by (simp add: user_details_def)
next
  assume "unsigned_part userId = [] \<or> \<not> isDigit (hd (unsigned_part userId))"
  then have "parseInt userId = None"
    by (intro parseInt_no_integer [OF refl refl]) (simp add: unsigned_part_def Let_def)
  then have "find (id_matches (parseInt userId)) allUsers = None"
    by (auto simp: find_None_iff id_matches_def split: option.splits json.splits)
  then show "user_details href userId st = Inr (json_content href not_found)"
    using assms by (simp add: user_details_def)
qed

lemma parseInt_0x1: "parseInt ''0x1'' = Some (Integer 1)"
  by (simp add: parseInt_def string_defs hexDigitsValue_def hexValue_def numberValue_1)

text \<open>
  Counterexample to claim C10 as stated: the leading digits of \<^verbatim>\<open>0x1\<close> are \<^verbatim>\<open>0\<close>, and a
  record with id 0 exists, yet \<^verbatim>\<open>parseInt\<close> reads the hexadecimal number 1 and the
  resource returns the "not found" payload.
\<close>

theorem hexadecimal_prefix_is_not_leading_digits:
  \<open>takeWhile isDigit ''0x1'' = ''0''
   \<and> id_matches (Some (numberValue False (digitsValue ''0'') 1))
       [(''id'', JNumber (Integer 0)), (''name'', JString ''Zed'')]
   \<and> user_details ''users://0x1/profile'' ''0x1'' two_users =
       Inr [\<lparr>uri = ''users://0x1/profile'', text_of = ''{"error":"User not found"}'',
             mimeType = ''application/json''\<rparr>]\<close>
  by (simp add: user_details_def two_users_def parseInt_0x1 id_matches_def json_content_def
      stringify_not_found string_defs numberValue_0)

theorem profile_matches_integer_prefix_witness:
  \<open>users_module two_users = Some [[(''id'', JNumber (Integer 0)), (''name'', JString ''Zed'')],
                                  [(''id'', JNumber (Integer 2)), (''name'', JString ''Bob'')]]
   \<and> user_details ''users://2abc/profile'' ''2abc'' two_users =
       Inr [\<lparr>uri = ''users://2abc/profile'', text_of = ''{"id":2,"name":"Bob"}'',
             mimeType = ''application/json''\<rparr>]
   \<and> user_details ''users://abc/profile'' ''abc'' two_users =
       Inr [\<lparr>uri = ''users://abc/profile'', text_of = ''{"error":"User not found"}'',
             mimeType = ''application/json''\<rparr>]\<close>
proof -
  let ?us = "[[(''id'', JNumber (Integer 0)), (''name'', JString ''Zed'')],
              [(''id'', JNumber (Integer 2)), (''name'', JString ''Bob'')]]"
  have m: "users_module two_users = Some ?us" by (simp add: two_users_def)
  have d: "''2'' \<noteq> [] \<and> list_all isDigit ''2'' \<and> (''abc'' = [] \<or> \<not> isDigit (hd ''abc''))
         \<and> \<not> startsWith (''2'' @ ''abc'') ''0x'' \<and> \<not> startsWith (''2'' @ ''abc'') ''0X''
         \<and> find (id_matches (Some (numberValue False (digitsValue ''2'') 1))) ?us
             = Some [(''id'', JNumber (Integer 2)), (''name'', JString ''Bob'')]"
    by (simp add: string_defs id_matches_def numberValue_2)
  have n: "unsigned_part ''abc'' = [] \<or> \<not> isDigit (hd (unsigned_part ''abc''))"
    by (simp add: unsigned_part_def string_defs)
  have s: \<open>JSON_stringify (JObject [(''id'', JNumber (Integer 2)), (''name'', JString ''Bob'')])
      = ''{"id":2,"name":"Bob"}''\<close>
    by code_simp
  have "user_details ''users://2abc/profile'' (''2'' @ ''abc'') two_users =
      Inr (json_content ''users://2abc/profile''
            (JObject [(''id'', JNumber (Integer 2)), (''name'', JString ''Bob'')]))"
    using profile_matches_integer_prefix [OF m, of "''users://2abc/profile''" _ "''2''" "''abc''"] d
    by blast
  moreover have "user_details ''users://abc/profile'' ''abc'' two_users =
      Inr (json_content ''users://abc/profile'' not_found)"
    using profile_matches_integer_prefix [OF m, of "''users://abc/profile''" "''abc''"] n
    by blast
  ultimately show ?thesis
    using m by (simp add: json_content_def s stringify_not_found)
qed

subsection \<open>The driver\<close>

lemma collect_succeeds:
  "length (text_entries messages) \<le> length (confirms w) \<Longrightarrow>
   generations w = map Inr outs @ rest \<Longrightarrow>
   length outs = length (confirmed (text_entries messages) (confirms w)) \<Longrightarrow>
   collect messages acc w =
     (Returns (acc @ outs),
      w\<lparr>confirms := drop (length (text_entries messages)) (confirms w),
        generations := rest,
        console := console w @ text_entries messages,
        prompts := prompts w @ confirmed (text_entries messages) (confirms w)\<rparr>)"
proof (induction messages arbitrary: w acc outs)
  case Nil
  then show ?case by (simp add: confirmed_def)
next
  case (Cons m ms)
  show ?case
  proof (cases "content m")
    case (OtherContent ty)
    then have h: "handleServerMessagePrompt m w = (Returns None, w)"
      by (simp add: handleServerMessagePrompt_def)
    show ?thesis
      using Cons.IH [of w outs acc] Cons.prems OtherContent h by simp
  next
    case (TextContent t)
    then obtain a as where c: "confirms w = a # as"
      using Cons.prems(1) by (cases "confirms w") auto
    define w1 where "w1 = w\<lparr>console := console w @ [t], confirms := as\<rparr>"
    show ?thesis
    proof (cases a)
      case False
      have h: "handleServerMessagePrompt m w = (Returns None, w1)"
        using TextContent c False by (simp add: handleServerMessagePrompt_def w1_def Let_def)
      have "collect ms acc w1 =
        (Returns (acc @ outs),
         w1\<lparr>confirms := drop (length (text_entries ms)) (confirms w1),
           generations := rest,
           console := console w1 @ text_entries ms,
           prompts := prompts w1 @ confirmed (text_entries ms) (confirms w1)\<rparr>)"
        using Cons.prems TextContent c False
        by (intro Cons.IH) (simp_all add: w1_def confirmed_def)
      then show ?thesis
        using h TextContent c False by (simp add: w1_def confirmed_def)
    next
      case True
      then obtain x outs' where o: "outs = x # outs'"
        using Cons.prems(3) TextContent c by (cases outs) (auto simp: confirmed_def)
      define w3 where "w3 = w1\<lparr>generations := map Inr outs' @ rest, prompts := prompts w @ [t]\<rparr>"
      have h: "handleServerMessagePrompt m w = (Returns (Some x), w3)"
        using TextContent c True o Cons.prems(2)
        by (simp add: handleServerMessagePrompt_def w1_def w3_def Let_def)
      have "collect ms (acc @ [x]) w3 =
        (Returns ((acc @ [x]) @ outs'),
         w3\<lparr>confirms := drop (length (text_entries ms)) (confirms w3),
           generations := rest,
           console := console w3 @ text_entries ms,
           prompts := prompts w3 @ confirmed (text_entries ms) (confirms w3)\<rparr>)"
        using Cons.prems TextContent c True o
        by (intro Cons.IH) (simp_all add: w1_def w3_def confirmed_def)
      then show ?thesis
        using h TextContent c True o by (simp add: w1_def w3_def confirmed_def)
    qed
  qed
qed

text \<open>
  Claim C3, as amended. For every incoming \<^verbatim>\<open>sampling/createMessage\<close> request during which
  the user answers every confirmation and every sub-generation succeeds, the handler
  replies with the role "user", the fixed model identifier "gemini-2.0-flash" and the
  fixed stop reason "endTurn", and its content is one text item: the outputs, joined
  with newlines, of one sequential sub-generation per text message entry that the user
  confirmed. Entries that are not text and entries the user declined are skipped.
\<close>

theorem sampling_reply_joins_generations:
  assumes "length (text_entries messages) \<le> length (confirms w)"
    and "generations w = map Inr outs @ rest"
    and "length outs = length (confirmed (text_entries messages) (confirms w))"
  shows "sampling_handler messages w =
     (Returns (fixed_reply (join [CHR 0x0A] outs)),
      w\<lparr>confirms := drop (length (text_entries messages)) (confirms w),
        generations := rest,
        console := console w @ text_entries messages,
        prompts := prompts w @ confirmed (text_entries messages) (confirms w)\<rparr>)"
  using collect_succeeds [OF assms, of "[]"]
  by (simp add: sampling_handler_def fixed_reply_def)

lemma handle_consumes:
  assumes "handleServerMessagePrompt m w = (out, w')"
  shows "(generations w' = generations w \<and> (\<forall>e. out \<noteq> Throws e))
       \<or> (\<exists>e. generations w = Inl e # generations w' \<and> out = Throws e)
       \<or> (\<exists>t. generations w = Inr t # generations w' \<and> out = Returns (Some t))"
proof (cases "content m")
  case (OtherContent ty)
  then show ?thesis using assms by (auto simp: handleServerMessagePrompt_def)
next
  case (TextContent t)
  show ?thesis
  proof (cases "confirms w")
    case Nil
    then show ?thesis using assms TextContent
      by (auto simp: handleServerMessagePrompt_def Let_def)
  next
    case (Cons a as)
    show ?thesis
    proof (cases "a \<and> generations w \<noteq> []")
      case False
      then show ?thesis using assms TextContent Cons
        by (cases "generations w")
          (auto simp: handleServerMessagePrompt_def Let_def split: if_splits)
    next
      case True
      then obtain g gs where g: "generations w = g # gs" by (cases "generations w") auto
      show ?thesis using assms TextContent Cons True g
        by (cases g) (auto simp: handleServerMessagePrompt_def Let_def)
    qed
  qed
qed

lemma collect_consumes:
  "collect ms acc w = (out, w') \<Longrightarrow>
     \<exists>used. generations w = used @ generations w' \<and> (\<forall>e. Inl e \<in> set used \<longrightarrow> out = Throws e)"
proof (induction ms arbitrary: acc w)
  case Nil
  then show ?case by simp
next
  case (Cons m ms)
  obtain o1 w1 where h: "handleServerMessagePrompt m w = (o1, w1)"
    by (cases "handleServerMessagePrompt m w")
  show ?case
  proof (cases o1)
    case (Returns r)
    then have "collect ms (case r of None \<Rightarrow> acc | Some t \<Rightarrow> acc @ [t]) w1 = (out, w')"
      using Cons.prems h by simp
    then obtain used where u: "generations w1 = used @ generations w'"
      "\<forall>e. Inl e \<in> set used \<longrightarrow> out = Throws e"
      using Cons.IH by blast
    from handle_consumes [OF h] Returns
    consider "generations w1 = generations w" | t where "generations w = Inr t # generations w1"
      by auto
    then show ?thesis
    proof cases
      case 1
      then have "generations w = used @ generations w'" using u(1) by simp
      then show ?thesis using u(2) by blast
    next
      case 2
      then have "generations w = (Inr t # used) @ generations w'" using u(1) by simp
      moreover have "\<forall>e. Inl e \<in> set (Inr t # used) \<longrightarrow> out = Throws e" using u(2) by simp
      ultimately show ?thesis by blast
    qed
  next
    case (Throws e1)
    then have o: "out = Throws e1" "w' = w1" using Cons.prems h by simp_all
    from handle_consumes [OF h] Throws
    have "generations w = [Inl e1] @ generations w'" using o by auto
    moreover have "\<forall>e. Inl e \<in> set [Inl e1] \<longrightarrow> out = Throws e" using o by simp
    ultimately show ?thesis by blast
  next
    case Pending
    then have o: "out = Pending" "w' = w1" using Cons.prems h by simp_all
    from handle_consumes [OF h] Pending
    have "generations w = [] @ generations w'" using o by auto
    then show ?thesis by (metis empty_iff list.set(1))
  qed
qed

text \<open>
  Claim C7. For every \<^verbatim>\<open>sampling/createMessage\<close> request, if a call of the generation
  backend made while handling it fails with an error, the handler ends by throwing that
  error: the request is answered with an error, it is neither left pending nor answered
  with a result.
\<close>

theorem backend_failure_is_answered_with_error:
  assumes "sampling_handler messages w = (out, w')"
    and "generations w = used @ generations w'"
    and "Inl e \<in> set used"
  shows "out = Throws e"
proof -
  obtain o1 where c: "collect messages [] w = (o1, w')"
    using assms(1) by (cases "collect messages [] w")
      (auto simp: sampling_handler_def split: outcome.splits)
  obtain used' where u: "generations w = used' @ generations w'"
    "\<forall>e. Inl e \<in> set used' \<longrightarrow> o1 = Throws e"
    using collect_consumes [OF c] by blast
  have "used' = used" using u(1) assms(2) by simp
  then have "o1 = Throws e" using u(2) assms(3) by simp
  then show ?thesis using assms(1) c by (simp add: sampling_handler_def)
qed

theorem backend_failure_witness:
  "generations failing_world = [Inr ''Ada'', Inl (GenerationFailed ''quota'')] @ []
   \<and> Inl (GenerationFailed ''quota'') \<in> set [Inr ''Ada'', Inl (GenerationFailed ''quota'')]
   \<and> sampling_handler [text_message ''one'', text_message ''two''] failing_world =
     (Throws (GenerationFailed ''quota''),
      failing_world\<lparr>confirms := [], generations := [], console := [''one'', ''two''],
        prompts := [''one'', ''two'']\<rparr>)"
proof -
  let ?w' = "failing_world\<lparr>confirms := [], generations := [], console := [''one'', ''two''],
        prompts := [''one'', ''two'']\<rparr>"
  obtain out where r: "sampling_handler [text_message ''one'', text_message ''two''] failing_world
      = (out, ?w')"
    by (simp add: sampling_handler_def handleServerMessagePrompt_def text_message_def
        failing_world_def Let_def)
  have g: "generations failing_world = [Inr ''Ada'', Inl (GenerationFailed ''quota'')] @ generations ?w'"
    by (simp add: failing_world_def)
  have "out = Throws (GenerationFailed ''quota'')"
    using backend_failure_is_answered_with_error [OF r g] by simp
  then show ?thesis using r by (simp add: failing_world_def)
qed

text \<open>
  Counterexample to claim C3 as stated: a request with one image entry is answered with
  the empty text and no sub-generation; of two text entries of which the user declines
  the second, only the first is generated; and when the backend fails on the second of
  two entries the handler throws instead of replying with a record.
\<close>

theorem sampling_reply_not_one_per_message:
  "sampling_handler [image_message] ready_world = (Returns (fixed_reply []), ready_world)
   \<and> fst (sampling_handler [text_message ''one'', text_message ''two''] ready_world)
       = Returns (fixed_reply ''Ada'')
   \<and> fst (sampling_handler [text_message ''one'', text_message ''two''] failing_world)
       = Throws (GenerationFailed ''quota'')"
  by (simp add: sampling_handler_def handleServerMessagePrompt_def text_message_def
      image_message_def ready_world_def failing_world_def fixed_reply_def Let_def)

theorem sampling_reply_witness:
  "length (text_entries [text_message ''one'', image_message, text_message ''two'', text_message ''three''])
      \<le> length (confirms ready_world)
   \<and> sampling_handler [text_message ''one'', image_message, text_message ''two'', text_message ''three'']
        ready_world =
     (Returns (fixed_reply (''Ada'' @ [CHR 0x0A] @ ''Bob'')),
      ready_world\<lparr>confirms := [], generations := [],
        console := [''one'', ''two'', ''three''], prompts := [''one'', ''three'']\<rparr>)"
proof -
  let ?ms = "[text_message ''one'', image_message, text_message ''two'', text_message ''three'']"
  have a: "length (text_entries ?ms) \<le> length (confirms ready_world)"
    by (simp add: text_message_def image_message_def ready_world_def)
  have b: "generations ready_world = map Inr [''Ada'', ''Bob''] @ []"
    by (simp add: ready_world_def)
  have c: "length [''Ada'', ''Bob''] = length (confirmed (text_entries ?ms) (confirms ready_world))"
    by (simp add: text_message_def image_message_def ready_world_def confirmed_def)
  show ?thesis
    using a sampling_reply_joins_generations [OF a b c]
    by (simp add: text_message_def image_message_def confirmed_def ready_world_def)
qed

text \<open>
  Claim C8. For every autonomous task, whatever the language model answers, the
  multi-step tool-use loop takes at most 5 steps: the count is bounded by the ceiling
  \<^verbatim>\<open>maxSteps: 5\<close> that \<^verbatim>\<open>handleAutonomousTask\<close> passes, and the loop, a total function that
  recurs on the steps remaining, terminates.
\<close>

theorem autonomous_task_at_most_5_steps:
  "length (handleAutonomousTask answers) \<le> 5"
  unfolding handleAutonomousTask_def maxSteps_def by (rule generateText_steps_bound)

text \<open>
  Claim C9. When the user selects "Query", the iteration of the session loop runs the
  query handler and then, falling through, the autonomous-task flow; "Autonomous Task"
  is not among the menu choices, and no other choice reaches the autonomous-task flow.
\<close>

theorem query_falls_through:
  "main_iteration ''Query'' = [HandleQuery, HandleAutonomousTask]
   \<and> ''Autonomous Task'' \<notin> set choices
   \<and> (\<forall>c \<in> set choices. HandleAutonomousTask \<in> set (main_iteration c) \<longleftrightarrow> c = ''Query'')"
  by (simp add: main_iteration_def clauses_def choices_def)

theorem query_falls_through_witness:
  "''Tools'' \<in> set choices \<and> HandleAutonomousTask \<notin> set (main_iteration ''Tools'')
   \<and> ''Query'' \<in> set choices \<and> HandleAutonomousTask \<in> set (main_iteration ''Query'')"
proof -
  have t: "''Tools'' \<in> set choices" and q: "''Query'' \<in> set choices"
    by (simp_all add: choices_def)
  show ?thesis
    using query_falls_through t q by auto
qed

end
